theory Spec2Isabelle
  imports Main "HOL-Library.Word"
begin

unbundle bit_operations_syntax

section \<open>hashdict: a string dictionary with chained buckets\<close>

text \<open>
  The library (\<^verbatim>\<open>hashdict.c\<close>, \<^verbatim>\<open>hashdict.h\<close>) keeps \<^verbatim>\<open>HASHSIZE\<close> buckets; each bucket is
  a singly linked chain of \<^verbatim>\<open>struct hd_entry\<close> nodes owning a copy of a key and of a value.
  The header defines \<^verbatim>\<open>DEBUG\<close>, so the collision counter and the byte counter are
  part of the dictionary.

  Conventions of the embedding.
  \<^item> A C string is the list of its bytes before the terminating NUL; a \<^verbatim>\<open>char*\<close> that may
    be \<^verbatim>\<open>NULL\<close> is a \<open>string option\<close>. The parameters \<^verbatim>\<open>key\<close> and \<^verbatim>\<open>value\<close> of
    the C functions are written \<open>k\<close> and \<open>v\<close>, the names \<open>key\<close> and \<open>value\<close> being
    the fields of \<^verbatim>\<open>struct hd_entry\<close>.
  \<^item> A \<^verbatim>\<open>struct hd_hashdict*\<close> is a \<open>hd_hashdict option\<close>, \<open>None\<close> for \<^verbatim>\<open>NULL\<close>. A
    function that writes through it returns, next to its \<^verbatim>\<open>int\<close> result, the dictionary
    it leaves behind.
  \<^item> A chain is the list of its nodes in link order: the bucket slot points to the first
    element, each \<^verbatim>\<open>next\<close> to the following one, the last \<^verbatim>\<open>next\<close> is \<^verbatim>\<open>NULL\<close>;
    an empty bucket is the empty list. A pointer to a node is the pair of its bucket index
    and its position in the chain.
  \<^item> The sizes are those of an LP64 platform with a signed plain \<^verbatim>\<open>char\<close> (x86-64):
    \<^verbatim>\<open>unsigned long\<close> has 64 bits, \<^verbatim>\<open>unsigned int\<close> and \<^verbatim>\<open>int\<close> have 32 bits, a
    pointer has 8 bytes and \<^verbatim>\<open>struct hd_entry\<close>, three pointers, has 24. The general
    theorems on the dictionary do not unfold \<open>sizeof_ptr\<close> or \<open>sizeof_hd_entry\<close>; the
    evaluations at concrete inputs use their values, and the comparison of the hash with
    the fold of the specification uses the signedness of \<^verbatim>\<open>char\<close>.
  \<^item> Undefined behaviour (a dereferenced \<^verbatim>\<open>NULL\<close>, a read past a buffer) and a failed
    \<^verbatim>\<open>assert\<close> are the two values of type \<open>fault\<close>; a function that can run into one
    returns \<open>fault + 'a\<close>, and nothing is said about the dictionary after a fault.
  \<^item> Whether a call of \<^verbatim>\<open>malloc\<close> succeeds is decided by the environment: each function
    that allocates takes one boolean per call of \<^verbatim>\<open>malloc\<close> it can make.
\<close>

subsection \<open>Constants of the platform and of the header\<close>

definition HASHSIZE :: nat where
  "HASHSIZE = 1024"

definition EINVAL :: int where
  "EINVAL = 22"

definition ENOMEM :: int where
  "ENOMEM = 12"

definition sizeof_ptr :: nat where
  "sizeof_ptr = 8"

definition sizeof_hd_entry :: nat where
  "sizeof_hd_entry = 24"

definition plain_char_signed :: bool where
  "plain_char_signed = True"

datatype fault = Undefined_Behaviour | Assertion_Failed

subsection \<open>Data\<close>

record hd_entry =
  key :: string
  "value" :: string

record hd_hashdict =
  entries :: "hd_entry list list"
  num_entries :: "32 word"
  collisions :: "32 word"
  alloced_bytes :: "32 word"

text \<open>
  \<^verbatim>\<open>alloced_bytes\<close> is an \<^verbatim>\<open>int\<close>, read with \<open>sint\<close>. Its updates add or subtract a
  \<^verbatim>\<open>size_t\<close>: the sum is formed in 64 bits and converted back to 32, which is addition
  modulo \<open>2 ^ 32\<close> of the truncated operand.
\<close>

subsection \<open>The C library functions used\<close>

definition strlen :: "string \<Rightarrow> nat" where
  "strlen s = length s"

text \<open>
  \<^verbatim>\<open>strcmp\<close> compares the bytes as \<^verbatim>\<open>unsigned char\<close>; only the sign of its result is
  specified.
\<close>

fun strcmp :: "string \<Rightarrow> string \<Rightarrow> int" where
  "strcmp [] [] = 0"
| "strcmp [] (b # bs) = - 1"
| "strcmp (a # as) [] = 1"
| "strcmp (a # as) (b # bs) =
     (if a = b then strcmp as bs else if (of_char a :: nat) < of_char b then - 1 else 1)"

subsection \<open>\<^verbatim>\<open>hd_hash\<close>\<close>

text \<open>
  \<^verbatim>\<open>c = *key++\<close> converts a plain \<^verbatim>\<open>char\<close> to \<^verbatim>\<open>int\<close>; adding it to the
  \<^verbatim>\<open>unsigned long\<close> converts it modulo \<open>2 ^ 64\<close>.
\<close>

definition char_to_int :: "char \<Rightarrow> int" where
  "char_to_int c =
     (if plain_char_signed \<and> (128::int) \<le> of_char c then of_char c - 256 else of_char c)"

fun hd_hash_loop :: "64 word \<Rightarrow> string \<Rightarrow> 64 word" where
  "hd_hash_loop hash [] = hash"
| "hd_hash_loop hash (c # k) =
     hd_hash_loop ((push_bit 5 hash + hash) + word_of_int (char_to_int c)) k"

definition hd_hash :: "string \<Rightarrow> nat" where
  "hd_hash k = unat (hd_hash_loop 5381 k mod of_nat HASHSIZE)"

text \<open>
  The hash as the specification words it: seed 5381, each step \<open>hash * 33 + byte\<close> in
  unsigned 64-bit arithmetic, the result reduced modulo the capacity. The byte is the
  value of the key's byte, a number from 0 to 255.
\<close>

definition djb2_step :: "int \<Rightarrow> char \<Rightarrow> int" where
  "djb2_step hash c = (hash * 33 + of_char c) mod 2 ^ 64"

definition djb2 :: "string \<Rightarrow> nat" where
  "djb2 k = nat (foldl djb2_step 5381 k mod int HASHSIZE)"

text \<open>
  The same fold over the bytes read as signed 8-bit numbers: a byte from \<open>0x80\<close> on
  enters as the byte minus 256.
\<close>

definition djb2_signed_step :: "int \<Rightarrow> char \<Rightarrow> int" where
  "djb2_signed_step hash c =
     (hash * 33 + (if (of_char c :: int) < 128 then of_char c else of_char c - 256)) mod 2 ^ 64"

definition djb2_signed :: "string \<Rightarrow> nat" where
  "djb2_signed k = nat (foldl djb2_signed_step 5381 k mod int HASHSIZE)"

subsection \<open>\<^verbatim>\<open>hd_create\<close>\<close>

definition hd_create :: hd_hashdict where
  "hd_create =
     \<lparr>entries = replicate HASHSIZE [], num_entries = 0, collisions = 0, alloced_bytes = 0\<rparr>"

subsection \<open>\<^verbatim>\<open>hd_lookup_entry\<close> and \<^verbatim>\<open>hd_lookup\<close>\<close>

text \<open>
  The loop of \<^verbatim>\<open>hd_lookup_entry\<close> over a chain that is not empty: \<open>i\<close> is the position
  of the node \<^verbatim>\<open>*entry_ptr\<close>.
\<close>

fun hd_lookup_walk :: "string \<Rightarrow> hd_entry list \<Rightarrow> nat \<Rightarrow> nat option" where
  "hd_lookup_walk k [] i = None"
| "hd_lookup_walk k (entry # nxt) i =
     (if strcmp k (key entry) \<noteq> 0
      then (if nxt = [] then None else hd_lookup_walk k nxt (Suc i))
      else Some i)"

definition hd_lookup_entry :: "hd_hashdict option \<Rightarrow> string option \<Rightarrow> (nat \<times> nat) option" where
  "hd_lookup_entry dict k =
     (if dict = None \<or> k = None then None
      else let d = the dict in
        if num_entries d = 0 then None
        else let hash = hd_hash (the k) in
          if entries d ! hash = [] then None
          else map_option (Pair hash) (hd_lookup_walk (the k) (entries d ! hash) 0))"

definition hd_lookup :: "hd_hashdict option \<Rightarrow> string option \<Rightarrow> string option" where
  "hd_lookup dict k =
     (case hd_lookup_entry dict k of
        None \<Rightarrow> None
      | Some (hash, i) \<Rightarrow> Some (value (entries (the dict) ! hash ! i)))"

subsection \<open>\<^verbatim>\<open>hd_stralloc\<close>\<close>

text \<open>
  Three ways into undefined behaviour. \<^verbatim>\<open>strlen(str)\<close> dereferences \<^verbatim>\<open>str\<close>, which
  may be \<^verbatim>\<open>NULL\<close>. The result of \<^verbatim>\<open>malloc\<close> is passed to \<^verbatim>\<open>memcpy\<close> unchecked, so a
  failed allocation is a write through \<^verbatim>\<open>NULL\<close>; the function therefore never returns
  \<^verbatim>\<open>NULL\<close>, and the tests \<^verbatim>\<open>== NULL\<close> that its two callers make on the result,
  with the branches behind them (\<^verbatim>\<open>err_keyalloc\<close>, \<^verbatim>\<open>err_valalloc\<close>, the
  \<^verbatim>\<open>-ENOMEM\<close> of \<^verbatim>\<open>hd_entry_update\<close>), cannot be taken. \<^verbatim>\<open>str_len\<close> is an
  \<^verbatim>\<open>unsigned int\<close>: for a string of \<open>2 ^ 32 - 1\<close> bytes or more the copy is cut short
  and has no terminator; both callers pass the copy to \<^verbatim>\<open>strlen\<close> before they return,
  which then reads past the buffer, and that is recorded here.
\<close>

definition hd_stralloc :: "bool \<Rightarrow> string option \<Rightarrow> fault + string" where
  "hd_stralloc malloc_ok str =
     (case str of
        None \<Rightarrow> Inl Undefined_Behaviour
      | Some s \<Rightarrow>
          let str_len = (of_nat (strlen s + 1) :: 32 word) in
          if \<not> malloc_ok then Inl Undefined_Behaviour
          else if unat str_len < strlen s + 1 then Inl Undefined_Behaviour
          else Inr s)"

subsection \<open>\<^verbatim>\<open>hd_entry_insert\<close>\<close>

text \<open>
  The walk down the chain to the node whose \<^verbatim>\<open>next\<close> is \<^verbatim>\<open>NULL\<close>, where the new node
  is linked; in an empty bucket the new node becomes the head.
\<close>

fun hd_insert_walk :: "hd_entry list \<Rightarrow> hd_entry \<Rightarrow> hd_entry list" where
  "hd_insert_walk [] new = [new]"
| "hd_insert_walk (entry # nxt) new = entry # hd_insert_walk nxt new"

text \<open>
  The three booleans say whether the allocation of the node, of the key copy and of the
  value copy succeed.
\<close>

definition hd_entry_insert ::
  "bool \<times> bool \<times> bool \<Rightarrow> hd_hashdict option \<Rightarrow> string option \<Rightarrow> string option
     \<Rightarrow> fault + (int \<times> hd_hashdict option)" where
  "hd_entry_insert m dict k v =
     (case m of (node_ok, key_ok, value_ok) \<Rightarrow>
      if dict = None \<or> k = None \<or> hd_lookup_entry dict k \<noteq> None
      then Inr (- EINVAL, dict)
      else let d = the dict;
               hash = hd_hash (the k);
               chain = entries d ! hash;
               d1 = (if chain \<noteq> [] then d\<lparr>collisions := collisions d + 1\<rparr> else d)
           in if \<not> node_ok then Inr (- ENOMEM, Some d1)
              else case hd_stralloc key_ok k of
                     Inl f \<Rightarrow> Inl f
                   | Inr kc \<Rightarrow>
                      (case hd_stralloc value_ok v of
                         Inl f \<Rightarrow> Inl f
                       | Inr vc \<Rightarrow>
                          Inr (0, Some (d1
                            \<lparr>entries := (entries d1)
                               [hash := hd_insert_walk chain \<lparr>key = kc, value = vc\<rparr>],
                             num_entries := num_entries d1 + 1,
                             alloced_bytes := alloced_bytes d1 +
                               of_nat (strlen kc + 1 + strlen vc + 1 + sizeof_hd_entry)\<rparr>))))"

subsection \<open>\<^verbatim>\<open>hd_entry_remove\<close>\<close>

text \<open>
  The loop of \<^verbatim>\<open>hd_entry_remove\<close>: the position of the first node with the key;
  \<^verbatim>\<open>prev_entry\<close> is the node before it, \<^verbatim>\<open>NULL\<close> at position 0.
\<close>

fun hd_remove_walk :: "string \<Rightarrow> hd_entry list \<Rightarrow> nat \<Rightarrow> nat option" where
  "hd_remove_walk k [] i = None"
| "hd_remove_walk k (entry # nxt) i =
     (if strcmp k (key entry) \<noteq> 0
      then (if nxt = [] then None else hd_remove_walk k nxt (Suc i))
      else Some i)"

text \<open>
  \<^verbatim>\<open>entry_ptr\<close> is a \<^verbatim>\<open>struct hd_entry**\<close>: it points to the slot that points to the
  node under inspection, the bucket slot \<^verbatim>\<open>dict->entries[hash]\<close> at position 0 and the
  field \<^verbatim>\<open>prev_entry->next\<close> further down. When the loop has found the key at position
  \<open>i\<close>, the statement that relinks the chain stores the \<^verbatim>\<open>next\<close> of the matched node
  into that very slot. Every \<^verbatim>\<open>*entry_ptr\<close> read after it is the node now at position
  \<open>i\<close>, the successor of the matched node:
  \<^item> \<^verbatim>\<open>num_entries\<close> is decremented;
  \<^item> if the matched node was the last of its chain, the slot holds \<^verbatim>\<open>NULL\<close> and
    \<^verbatim>\<open>strlen((*entry_ptr)->key)\<close> dereferences it;
  \<^item> otherwise \<^verbatim>\<open>alloced_bytes\<close> is lowered by the lengths of the successor's strings
    and the size of a node, the successor's key, value and node are freed, and 0 is
    returned; the slot goes on pointing to the freed node, and the matched node is
    unlinked and never freed.

  The result of a call that returns is the \<^verbatim>\<open>int\<close>, the dictionary with the links as the
  call leaves them, and the pointer to the node that the call has freed while it is
  linked, \<open>None\<close> when it has freed nothing. The contents of a freed node are
  indeterminate: the other functions of this theory describe the code on dictionaries
  whose linked nodes are all allocated.
\<close>

definition hd_entry_remove ::
  "hd_hashdict option \<Rightarrow> string option
     \<Rightarrow> fault + (int \<times> hd_hashdict option \<times> (nat \<times> nat) option)" where
  "hd_entry_remove dict k =
     (if dict = None \<or> k = None then Inr (- EINVAL, dict, None)
      else let d = the dict in
        if num_entries d = 0 then Inr (- EINVAL, dict, None)
        else let hash = hd_hash (the k); chain = entries d ! hash in
          if chain = [] then Inr (- EINVAL, dict, None)
          else case hd_remove_walk (the k) chain 0 of
                 None \<Rightarrow> Inr (- EINVAL, dict, None)
               | Some i \<Rightarrow>
                  let relinked = (if i = 0 then drop 1 chain
                                  else take i chain @ drop (Suc i) chain);
                      d1 = d\<lparr>entries := (entries d)[hash := relinked],
                             num_entries := num_entries d - 1\<rparr>
                  in if length relinked \<le> i then Inl Undefined_Behaviour
                     else let entry = relinked ! i in
                       Inr (0,
                            Some (d1\<lparr>alloced_bytes := alloced_bytes d1 -
                                    of_nat (strlen (key entry) + strlen (value entry)
                                            + sizeof_hd_entry)\<rparr>),
                            Some (hash, i)))"

subsection \<open>\<^verbatim>\<open>hd_entry_update\<close>\<close>

definition hd_entry_update ::
  "bool \<Rightarrow> hd_hashdict option \<Rightarrow> string option \<Rightarrow> string option
     \<Rightarrow> fault + (int \<times> hd_hashdict option)" where
  "hd_entry_update malloc_ok dict k v =
     (case hd_lookup_entry dict k of
        None \<Rightarrow> Inr (- EINVAL, dict)
      | Some (hash, i) \<Rightarrow>
         (case hd_stralloc malloc_ok v of
            Inl f \<Rightarrow> Inl f
          | Inr new_value \<Rightarrow>
             let d = the dict; chain = entries d ! hash; entry = chain ! i in
             Inr (0, Some (d
               \<lparr>entries := (entries d)[hash := chain[i := entry\<lparr>value := new_value\<rparr>]],
                alloced_bytes := alloced_bytes d +
                  (of_nat (strlen new_value) - of_nat (strlen (value entry)))\<rparr>))))"

subsection \<open>\<^verbatim>\<open>hd_free_entry_list\<close> and \<^verbatim>\<open>hd_free\<close>\<close>

text \<open>
  \<^verbatim>\<open>hd_free_entry_list\<close> gets the chain from its first node on; \<^verbatim>\<open>hd_free\<close> passes
  the address of a dictionary, never \<^verbatim>\<open>NULL\<close>. The byte counter is lowered by
  \<^verbatim>\<open>sizeof(entry->key) + sizeof(entry->value) + sizeof(struct hd_entry)\<close>, and the first
  two are sizes of pointers.
\<close>

fun hd_free_entry_list :: "hd_entry list \<Rightarrow> hd_hashdict \<Rightarrow> fault + hd_hashdict" where
  "hd_free_entry_list [] dict = Inl Assertion_Failed"
| "hd_free_entry_list (entry # nxt) dict =
     (case (if nxt \<noteq> [] then hd_free_entry_list nxt dict else Inr dict) of
        Inl f \<Rightarrow> Inl f
      | Inr dict1 \<Rightarrow>
          Inr (dict1
            \<lparr>alloced_bytes := alloced_bytes dict1 -
               of_nat (sizeof_ptr + sizeof_ptr + sizeof_hd_entry),
             num_entries := num_entries dict1 - 1\<rparr>))"

function hd_free_loop :: "nat \<Rightarrow> hd_hashdict \<Rightarrow> fault + hd_hashdict" where
  "hd_free_loop i d =
     (if i < HASHSIZE
      then (if entries d ! i \<noteq> []
            then (case hd_free_entry_list (entries d ! i) d of
                    Inl f \<Rightarrow> Inl f
                  | Inr d1 \<Rightarrow> hd_free_loop (Suc i) (d1\<lparr>entries := (entries d1)[i := []]\<rparr>))
            else hd_free_loop (Suc i) d)
      else Inr d)"
  by pat_completeness auto
termination
  by (relation "measure (\<lambda>(i, d). HASHSIZE - i)") auto

declare hd_free_loop.simps [simp del]

definition hd_free :: "hd_hashdict option \<Rightarrow> fault + hd_hashdict option" where
  "hd_free dict =
     (case dict of
        None \<Rightarrow> Inr None
      | Some d \<Rightarrow> (case hd_free_loop 0 d of Inl f \<Rightarrow> Inl f | Inr d' \<Rightarrow> Inr (Some d')))"

subsection \<open>Well-formed dictionaries\<close>

text \<open>
  \<open>node_count\<close> is the number of nodes reachable from the buckets, \<open>stored_keys\<close> the
  set of their keys. A dictionary is \<open>valid\<close> when it has \<open>HASHSIZE\<close> buckets, every
  node lies in the bucket of its key's hash, no chain holds a key twice, and
  \<^verbatim>\<open>num_entries\<close> is the number of nodes.
\<close>

definition node_count :: "hd_hashdict \<Rightarrow> nat" where
  "node_count d = sum_list (map length (entries d))"

definition stored_keys :: "hd_hashdict \<Rightarrow> string set" where
  "stored_keys d = (\<Union>chain \<in> set (entries d). key ` set chain)"

definition valid :: "hd_hashdict \<Rightarrow> bool" where
  "valid d \<longleftrightarrow>
     length (entries d) = HASHSIZE
     \<and> (\<forall>b \<in> set [0..<HASHSIZE]. \<forall>e \<in> set (entries d ! b). hd_hash (key e) = b)
     \<and> (\<forall>b \<in> set [0..<HASHSIZE]. distinct (map key (entries d ! b)))
     \<and> unat (num_entries d) = node_count d"

subsection \<open>Example dictionaries\<close>

text \<open>The dictionary after \<^verbatim>\<open>hd_create()\<close> and a successful \<^verbatim>\<open>hd_entry_insert(&dict, "a", "1")\<close>.\<close>

definition dict_a1 :: hd_hashdict where
  "dict_a1 =
     \<lparr>entries = (replicate HASHSIZE [])[518 := [\<lparr>key = ''a'', value = ''1''\<rparr>]],
      num_entries = 1, collisions = 0, alloced_bytes = 28\<rparr>"

text \<open>
  The dictionary after a further successful \<^verbatim>\<open>hd_entry_insert(&dict, "b", "2")\<close>: the
  two keys lie in different buckets.
\<close>

definition dict_a1_b2 :: hd_hashdict where
  "dict_a1_b2 =
     \<lparr>entries = (replicate HASHSIZE [])
        [518 := [\<lparr>key = ''a'', value = ''1''\<rparr>], 519 := [\<lparr>key = ''b'', value = ''2''\<rparr>]],
      num_entries = 2, collisions = 0, alloced_bytes = 56\<rparr>"

text \<open>
  The dictionary after \<^verbatim>\<open>hd_create()\<close> and the successful inserts of "ab" with the
  value "1" and of "bA" with the value "22": the two keys have the same hash, and the
  second insert counts a collision.
\<close>

definition dict_ab_bA :: hd_hashdict where
  "dict_ab_bA =
     \<lparr>entries = (replicate HASHSIZE [])
        [808 := [\<lparr>key = ''ab'', value = ''1''\<rparr>, \<lparr>key = ''bA'', value = ''22''\<rparr>]],
      num_entries = 2, collisions = 1, alloced_bytes = 59\<rparr>"

section \<open>The hash function\<close>

lemma hd_hash_step_uint:
  "uint (push_bit 5 h + h + word_of_int c :: 64 word) = (uint h * 33 + c) mod 2 ^ 64"
proof -
  have "push_bit 5 h + h + word_of_int c = (word_of_int (uint h * 33 + c) :: 64 word)"
    by (simp add: push_bit_eq_mult)
  then show ?thesis
    by (simp only: uint_word_of_int) simp
qed

lemma uint_hd_hash_loop:
  "uint (hd_hash_loop h k) = foldl (\<lambda>x c. (x * 33 + char_to_int c) mod 2 ^ 64) (uint h) k"
proof (induction k arbitrary: h)
  case Nil
  then show ?case by simp
next
  case (Cons c k)
  then show ?case by (simp add: hd_hash_step_uint)
qed

lemma hd_hash_fold:
  "hd_hash k = nat (foldl (\<lambda>x c. (x * 33 + char_to_int c) mod 2 ^ 64) 5381 k mod 1024)"
proof -
  have "uint (hd_hash_loop 5381 k mod 1024)
          = foldl (\<lambda>x c. (x * 33 + char_to_int c) mod 2 ^ 64) 5381 k mod 1024"
    by (simp add: uint_mod_distrib uint_hd_hash_loop)
  then show ?thesis
    by (simp add: hd_hash_def HASHSIZE_def unat_eq_nat_uint del: uint_mod_distrib)
qed

lemma hd_hash_less: "hd_hash k < HASHSIZE"
  by (simp add: hd_hash_fold HASHSIZE_def nat_less_iff)

lemma of_char_int_range: "0 \<le> (of_char c :: int) \<and> (of_char c :: int) < 256"
proof -
  have "(of_char c :: int) = of_char c mod 256"
    by (simp only: of_char_mod_256)
  then show ?thesis
    using pos_mod_sign [of 256 "of_char c :: int"] pos_mod_bound [of 256 "of_char c :: int"]
    by simp
qed

lemma char_to_int_range: "- 128 \<le> char_to_int c \<and> char_to_int c < 256"
  using of_char_int_range [of c] by (auto simp: char_to_int_def)

lemma char_to_int_inj: "char_to_int a = char_to_int b \<Longrightarrow> a = b"
  by (metis char_to_int_def minus_mod_self2 of_char_eq_iff of_char_mod_256)

lemma hd_hash_snoc:
  "hd_hash (k @ [c])
     = nat ((foldl (\<lambda>x c. (x * 33 + char_to_int c) mod 2 ^ 64) 5381 k * 33 + char_to_int c)
            mod 1024)"
proof -
  have "(x mod 2 ^ 64) mod 1024 = x mod (1024::int)" for x :: int
    by (rule mod_mod_cancel) simp
  then show ?thesis
    by (simp add: hd_hash_fold)
qed

lemma hd_hash_last_byte: "hd_hash (k @ [a]) = hd_hash (k @ [b]) \<longleftrightarrow> a = b"
proof
  assume h: "hd_hash (k @ [a]) = hd_hash (k @ [b])"
  define H where "H = foldl (\<lambda>x c. (x * 33 + char_to_int c) mod 2 ^ 64) 5381 k * 33"
  from h have "(H + char_to_int a) mod 1024 = (H + char_to_int b) mod 1024"
    by (simp add: hd_hash_snoc H_def)
  then have dvd: "1024 dvd (char_to_int a - char_to_int b)"
    by (simp add: mod_eq_dvd_iff)
  have "char_to_int a = char_to_int b"
  proof (rule ccontr)
    assume "char_to_int a \<noteq> char_to_int b"
    then have "char_to_int a - char_to_int b \<noteq> 0"
      by simp
    from dvd_imp_le_int [OF this dvd] have "1024 \<le> \<bar>char_to_int a - char_to_int b\<bar>"
      by simp
    with char_to_int_range [of a] char_to_int_range [of b] show False
      by linarith
  qed
  then show "a = b"
    by (rule char_to_int_inj)
qed simp

lemma char_to_int_signed:
  "char_to_int c = (if (of_char c :: int) < 128 then of_char c else of_char c - 256)"
  by (simp add: char_to_int_def plain_char_signed_def)

lemma hd_hash_eq_djb2_signed: "hd_hash k = djb2_signed k"
proof -
  have "(\<lambda>x c. (x * 33 + char_to_int c) mod 2 ^ 64) = djb2_signed_step"
    by (intro ext) (simp only: djb2_signed_step_def char_to_int_signed)
  then show ?thesis
    by (simp add: hd_hash_fold djb2_signed_def HASHSIZE_def)
qed

lemma hd_hash_eq_djb2_low_bytes:
  assumes "\<forall>c \<in> set k. (of_char c :: nat) < 128"
  shows "hd_hash k = djb2 k"
proof -
  have "foldl djb2_signed_step h k = foldl djb2_step h k" for h
  proof (rule foldl_cong)
    fix x c assume "c \<in> set k"
    with assms have "(of_char c :: nat) < 128"
      by simp
    then have "int (of_char c) < 128"
      by simp
    then have "(of_char c :: int) < 128"
      by (simp add: of_nat_of_char)
    then show "djb2_signed_step x c = djb2_step x c"
      by (simp add: djb2_signed_step_def djb2_step_def)
  qed simp_all
  then show ?thesis
    by (simp add: hd_hash_eq_djb2_signed djb2_signed_def djb2_def)
qed

lemma hd_hash_empty: "hd_hash [] = 261"
  by (simp add: hd_hash_def HASHSIZE_def)

text \<open>
  Claim C8, at the input where it fails. The key is the single byte \<open>0xFF\<close>. The fold
  of the specification adds the byte, 255, and gives bucket \<open>(5381 * 33 + 255) mod 1024 = 676\<close>.
  The code reads the byte through a \<^verbatim>\<open>const char*\<close> into an \<^verbatim>\<open>int\<close>: plain
  \<^verbatim>\<open>char\<close> is signed, the byte enters as \<open>- 1\<close>, and the bucket is
  \<open>(5381 * 33 - 1) mod 1024 = 420\<close>.
\<close>

theorem hd_hash_high_byte:
  "hd_hash [CHR 0xFF] = 420 \<and> djb2 [CHR 0xFF] = 676 \<and> hd_hash [CHR 0xFF] \<noteq> djb2 [CHR 0xFF]"
proof -
  have "hd_hash [CHR 0xFF] = 420"
    by (simp add: hd_hash_def HASHSIZE_def char_to_int_def plain_char_signed_def)
  moreover have "djb2 [CHR 0xFF] = 676"
    by (simp add: djb2_def djb2_step_def HASHSIZE_def)
  ultimately show ?thesis
    by simp
qed

text \<open>
  Claim C8, amended. For every key, the empty one included, \<open>hd_hash\<close> is a function of
  the key alone and its result is a bucket index below \<open>HASHSIZE = 1024\<close>. It is the
  djb2 fold from the seed 5381 with the step \<open>hash * 33 + c\<close> modulo \<open>2 ^ 64\<close>, reduced
  modulo the capacity, where \<open>c\<close> is the byte read as a signed 8-bit number: the byte
  itself below \<open>0x80\<close>, the byte minus 256 from \<open>0x80\<close> on. For a key whose bytes are
  all below \<open>0x80\<close> this is the fold of the specification over the byte values. The
  empty key hashes to bucket 261, and all eight bits of a byte count: two keys that
  differ in their last byte only never share a hash.
\<close>

theorem hd_hash_is_signed_djb2_in_range:
  "HASHSIZE = 1024 \<and> hd_hash k < HASHSIZE \<and> hd_hash k = djb2_signed k
     \<and> ((\<forall>c \<in> set k. (of_char c :: nat) < 128) \<longrightarrow> hd_hash k = djb2 k)
     \<and> hd_hash [] = 261
     \<and> (hd_hash (k @ [a]) = hd_hash (k @ [b])) = (a = b)"
proof (intro conjI impI)
  show "HASHSIZE = 1024"
    by (simp add: HASHSIZE_def)
  show "hd_hash k < HASHSIZE"
    by (rule hd_hash_less)
  show "hd_hash k = djb2_signed k"
    by (rule hd_hash_eq_djb2_signed)
  show "hd_hash k = djb2 k" if "\<forall>c \<in> set k. (of_char c :: nat) < 128"
    using that by (rule hd_hash_eq_djb2_low_bytes)
  show "hd_hash [] = 261"
    by (rule hd_hash_empty)
  show "(hd_hash (k @ [a]) = hd_hash (k @ [b])) = (a = b)"
    by (rule hd_hash_last_byte)
qed

theorem hd_hash_is_signed_djb2_in_range_witness:
  "(of_char CHR ''a'' :: nat) < 128 \<and> hd_hash ''a'' < 1024
     \<and> hd_hash ''a'' = djb2_signed ''a'' \<and> hd_hash ''a'' = djb2 ''a'' \<and> djb2 ''a'' = 518
     \<and> hd_hash ''ab'' \<noteq> hd_hash ''aB''"
proof -
  note t = hd_hash_is_signed_djb2_in_range [of "''a''" "CHR ''b''" "CHR ''B''"]
  have 0: "\<forall>c \<in> set ''a''. (of_char c :: nat) < 128"
    by simp
  from t have "hd_hash ''a'' < HASHSIZE"
    by (elim conjE)
  then have 1: "hd_hash ''a'' < 1024"
    by (simp only: HASHSIZE_def)
  from t have 2: "hd_hash ''a'' = djb2_signed ''a''"
    by (elim conjE)
  from t have "(\<forall>c \<in> set ''a''. (of_char c :: nat) < 128) \<longrightarrow> hd_hash ''a'' = djb2 ''a''"
    by (elim conjE)
  with 0 have 3: "hd_hash ''a'' = djb2 ''a''"
    by (rule rev_mp)
  have 4: "djb2 ''a'' = 518"
    by (simp add: djb2_def djb2_step_def HASHSIZE_def)
  from t have "(hd_hash (''a'' @ [CHR ''b'']) = hd_hash (''a'' @ [CHR ''B''])) = (CHR ''b'' = CHR ''B'')"
    by (elim conjE)
  then have 5: "hd_hash ''ab'' \<noteq> hd_hash ''aB''"
    by simp
  have 6: "(of_char CHR ''a'' :: nat) < 128"
    by simp
  from 6 1 2 3 4 5 show ?thesis
    by (intro conjI)
qed

section \<open>Chains and lookup\<close>

lemma strcmp_eq_0_iff: "strcmp a b = 0 \<longleftrightarrow> a = b"
  by (induction a b rule: strcmp.induct) auto

lemma hd_insert_walk_append: "hd_insert_walk chain new = chain @ [new]"
  by (induction chain) auto

lemma hd_remove_walk_eq: "hd_remove_walk k chain i = hd_lookup_walk k chain i"
  by (induction chain arbitrary: i) auto

lemma hd_lookup_walk_None: "hd_lookup_walk k chain i = None \<longleftrightarrow> k \<notin> key ` set chain"
  by (induction chain arbitrary: i) (auto simp: strcmp_eq_0_iff)

lemma hd_lookup_walk_Some:
  "hd_lookup_walk k chain i = Some j \<Longrightarrow>
     i \<le> j \<and> j - i < length chain \<and> key (chain ! (j - i)) = k
       \<and> (\<forall>e \<in> set (take (j - i) chain). key e \<noteq> k)"
proof (induction chain arbitrary: i)
  case Nil
  then show ?case by simp
next
  case (Cons entry nxt)
  show ?case
  proof (cases "strcmp k (key entry) = 0")
    case True
    with Cons.prems show ?thesis by (auto simp: strcmp_eq_0_iff)
  next
    case False
    with Cons.prems have nxt: "nxt \<noteq> []" and w: "hd_lookup_walk k nxt (Suc i) = Some j"
      by (auto split: if_splits)
    from Cons.IH [OF w] False show ?thesis
      by (auto simp: strcmp_eq_0_iff Suc_diff_le nth_Cons' take_Cons' split: if_splits)
  qed
qed

lemma sum_list_length_0: "sum_list (map length xss) = 0 \<longleftrightarrow> (\<forall>xs \<in> set xss. xs = [])"
  by (induction xss) auto

lemma valid_num_entries_0:
  assumes "valid d" and "num_entries d = 0" and "b < HASHSIZE"
  shows "entries d ! b = []"
proof -
  from assms have "node_count d = 0" by (simp add: valid_def)
  then have "\<forall>xs \<in> set (entries d). xs = []"
    by (simp add: node_count_def sum_list_length_0)
  moreover from assms have "entries d ! b \<in> set (entries d)"
    by (simp add: valid_def)
  ultimately show ?thesis by blast
qed

lemma valid_stored_keys:
  assumes "valid d"
  shows "k \<in> stored_keys d \<longleftrightarrow> k \<in> key ` set (entries d ! hd_hash k)"
proof
  assume "k \<in> stored_keys d"
  then obtain chain e where c: "chain \<in> set (entries d)" and e: "e \<in> set chain" and k: "key e = k"
    by (auto simp: stored_keys_def)
  from c obtain b where b: "b < length (entries d)" and ch: "chain = entries d ! b"
    by (auto simp: in_set_conv_nth)
  with assms e have "hd_hash (key e) = b"
    by (simp add: valid_def)
  with k ch e show "k \<in> key ` set (entries d ! hd_hash k)" by auto
next
  assume "k \<in> key ` set (entries d ! hd_hash k)"
  moreover from assms have "entries d ! hd_hash k \<in> set (entries d)"
    by (simp add: valid_def hd_hash_less)
  ultimately show "k \<in> stored_keys d"
    by (auto simp: stored_keys_def)
qed

lemma hd_lookup_entry_None_iff:
  assumes "valid d"
  shows "hd_lookup_entry (Some d) (Some k) = None \<longleftrightarrow> k \<notin> stored_keys d"
proof (cases "num_entries d = 0")
  case True
  with assms have "entries d ! hd_hash k = []"
    by (simp add: valid_num_entries_0 hd_hash_less)
  with True assms show ?thesis
    by (simp add: hd_lookup_entry_def valid_stored_keys)
next
  case False
  with assms show ?thesis
    by (auto simp: hd_lookup_entry_def valid_stored_keys Let_def hd_lookup_walk_None)
qed

lemma hd_lookup_entry_Some:
  assumes "hd_lookup_entry (Some d) (Some k) = Some (h, i)"
  shows "h = hd_hash k \<and> i < length (entries d ! h) \<and> key (entries d ! h ! i) = k
           \<and> (\<forall>e \<in> set (take i (entries d ! h)). key e \<noteq> k)"
proof -
  from assms have h: "h = hd_hash k" and w: "hd_lookup_walk k (entries d ! h) 0 = Some i"
    by (auto simp: hd_lookup_entry_def Let_def split: if_splits)
  from hd_lookup_walk_Some [OF w] h show ?thesis by simp
qed

section \<open>Allocation, insertion and validity\<close>

lemma mod_less_self_iff: "0 < m \<Longrightarrow> n mod m < n \<longleftrightarrow> \<not> n < (m::nat)"
proof (cases "n < m")
  case True
  then show ?thesis by simp
next
  case False
  assume "0 < m"
  then have "n mod m < m" by simp
  with False show ?thesis by linarith
qed

lemma unat_str_len: "unat (of_nat n :: 32 word) < n \<longleftrightarrow> \<not> n < 2 ^ 32"
  using mod_less_self_iff [of "2 ^ 32" n] by (simp add: unat_of_nat)

lemma hd_stralloc_Some:
  "hd_stralloc ok (Some s) =
     (if \<not> ok then Inl Undefined_Behaviour
      else if \<not> length s + 1 < 2 ^ 32 then Inl Undefined_Behaviour
      else Inr s)"
  unfolding hd_stralloc_def strlen_def Let_def option.case unat_str_len
  by (rule refl)

lemma hd_stralloc_None: "hd_stralloc ok None = Inl Undefined_Behaviour"
  by (simp add: hd_stralloc_def)

lemma hd_entry_insert_cases:
  "hd_entry_insert (n, ko, vo) (Some d) (Some k) v =
     (if hd_lookup_entry (Some d) (Some k) \<noteq> None then Inr (- EINVAL, Some d)
      else if \<not> n then Inr (- ENOMEM, Some (if entries d ! hd_hash k \<noteq> []
                                              then d\<lparr>collisions := collisions d + 1\<rparr> else d))
      else if \<not> ko then Inl Undefined_Behaviour
      else if \<not> length k + 1 < 2 ^ 32 then Inl Undefined_Behaviour
      else if v = None \<or> \<not> vo then Inl Undefined_Behaviour
      else if \<not> length (the v) + 1 < 2 ^ 32 then Inl Undefined_Behaviour
      else Inr (0, Some (d
        \<lparr>entries := (entries d)[hd_hash k := entries d ! hd_hash k @ [\<lparr>key = k, value = the v\<rparr>]],
         num_entries := num_entries d + 1,
         collisions := (if entries d ! hd_hash k \<noteq> [] then collisions d + 1 else collisions d),
         alloced_bytes := alloced_bytes d
            + of_nat (length k + 1 + length (the v) + 1 + sizeof_hd_entry)\<rparr>)))"
proof (cases v)
  case None
  then show ?thesis
    by (simp add: hd_entry_insert_def Let_def hd_stralloc_Some hd_stralloc_None
          del: One_nat_def add_Suc_right)
next
  case (Some s)
  then show ?thesis
    by (simp add: hd_entry_insert_def Let_def hd_stralloc_Some strlen_def hd_insert_walk_append
          del: One_nat_def add_Suc_right)
qed


lemma node_count_update:
  assumes "h < length (entries d)"
  shows "node_count (d\<lparr>entries := (entries d)[h := c]\<rparr>) + length (entries d ! h)
           = node_count d + length c"
proof -
  let ?ls = "map length (entries d)"
  from assms have h: "h < length ?ls"
    by simp
  then have "?ls ! h \<le> sum_list ?ls"
    by (intro member_le_sum_list nth_mem) simp_all
  moreover have "sum_list (?ls[h := length c]) = sum_list ?ls + length c - ?ls ! h"
    using h by (rule sum_list_update)
  ultimately show ?thesis
    using assms by (simp add: node_count_def map_update)
qed

lemma valid_hd_create: "valid hd_create"
  by (simp add: valid_def hd_create_def node_count_def)

lemma node_count_hd_create: "node_count hd_create = 0"
  by (simp add: hd_create_def node_count_def)

lemma stored_keys_hd_create: "stored_keys hd_create = {}"
  by (simp add: hd_create_def stored_keys_def)

lemma valid_bucketD:
  assumes "valid d" and "b < HASHSIZE"
  shows "\<forall>e \<in> set (entries d ! b). hd_hash (key e) = b" and "distinct (map key (entries d ! b))"
    and "b < length (entries d)"
  using assms by (simp_all add: valid_def)

lemma valid_update_bucket:
  assumes "valid d" and "h < HASHSIZE"
    and "\<forall>e \<in> set c. hd_hash (key e) = h" and "distinct (map key c)"
    and "unat n + length (entries d ! h) = node_count d + length c"
  shows "valid (d\<lparr>entries := (entries d)[h := c], num_entries := n\<rparr>)"
proof -
  from assms have len: "h < length (entries d)"
    by (simp add: valid_def)
  from node_count_update [OF len, of c] assms(5)
  have "unat n = node_count (d\<lparr>entries := (entries d)[h := c]\<rparr>)"
    by simp
  then have "unat n = node_count (d\<lparr>entries := (entries d)[h := c], num_entries := n\<rparr>)"
    by (simp add: node_count_def)
  with assms len show ?thesis
    by (auto simp: valid_def nth_list_update)
qed

lemma valid_frame:
  "valid (d\<lparr>collisions := c\<rparr>) = valid d" "valid (d\<lparr>alloced_bytes := a\<rparr>) = valid d"
  by (simp_all add: valid_def node_count_def)

lemma stored_keys_frame:
  "stored_keys (d\<lparr>collisions := c\<rparr>) = stored_keys d"
  "stored_keys (d\<lparr>alloced_bytes := a\<rparr>) = stored_keys d"
  "stored_keys (d\<lparr>num_entries := n\<rparr>) = stored_keys d"
  by (simp_all add: stored_keys_def)

lemma node_count_frame:
  "node_count (d\<lparr>collisions := c\<rparr>) = node_count d"
  "node_count (d\<lparr>alloced_bytes := a\<rparr>) = node_count d"
  "node_count (d\<lparr>num_entries := n\<rparr>) = node_count d"
  by (simp_all add: node_count_def)

lemma stored_keys_nth:
  "stored_keys d = (\<Union>b \<in> {..<length (entries d)}. key ` set (entries d ! b))"
proof -
  have "set (entries d) = (\<lambda>b. entries d ! b) ` {..<length (entries d)}"
    by (auto simp: in_set_conv_nth)
  then show ?thesis
    by (simp add: stored_keys_def)
qed

lemma stored_keys_update:
  assumes "h < length (entries d)"
  shows "stored_keys (d\<lparr>entries := (entries d)[h := c]\<rparr>) =
           key ` set c \<union> (\<Union>b \<in> {..<length (entries d)} - {h}. key ` set (entries d ! b))"
  using assms by (auto simp: stored_keys_nth nth_list_update split: if_splits)

lemma stored_keys_append:
  assumes "h < length (entries d)"
  shows "stored_keys (d\<lparr>entries := (entries d)[h := entries d ! h @ [e]]\<rparr>)
           = insert (key e) (stored_keys d)"
proof -
  from assms have "stored_keys d =
      key ` set (entries d ! h) \<union> (\<Union>b \<in> {..<length (entries d)} - {h}. key ` set (entries d ! b))"
    by (auto simp: stored_keys_nth)
  with stored_keys_update [OF assms, of "entries d ! h @ [e]"] show ?thesis
    by auto
qed


lemma hd_lookup_walk_find:
  "hd_lookup_walk k chain i = Some j \<Longrightarrow> find (\<lambda>e. key e = k) chain = Some (chain ! (j - i))"
proof (induction chain arbitrary: i)
  case Nil
  then show ?case by simp
next
  case (Cons entry nxt)
  show ?case
  proof (cases "key entry = k")
    case True
    with Cons.prems show ?thesis
      by (simp add: strcmp_eq_0_iff)
  next
    case False
    with Cons.prems have w: "hd_lookup_walk k nxt (Suc i) = Some j"
      by (auto simp: strcmp_eq_0_iff split: if_splits)
    from hd_lookup_walk_Some [OF w] have "Suc i \<le> j"
      by simp
    then have "j - i = Suc (j - Suc i)"
      by simp
    with Cons.IH [OF w] False show ?thesis
      by simp
  qed
qed

lemma find_key_None: "find (\<lambda>e. key e = k) chain = None \<longleftrightarrow> k \<notin> key ` set chain"
  by (auto simp: find_None_iff)

lemma hd_lookup_valid:
  assumes "valid d"
  shows "hd_lookup (Some d) (Some k) =
           map_option value (find (\<lambda>e. key e = k) (entries d ! hd_hash k))"
proof (cases "hd_lookup_entry (Some d) (Some k)")
  case None
  with assms have "k \<notin> key ` set (entries d ! hd_hash k)"
    by (simp add: hd_lookup_entry_None_iff valid_stored_keys)
  then have "find (\<lambda>e. key e = k) (entries d ! hd_hash k) = None"
    by (simp add: find_key_None)
  with None show ?thesis
    by (simp add: hd_lookup_def)
next
  case (Some p)
  obtain h i where p: "p = (h, i)"
    by (cases p)
  with Some have h: "h = hd_hash k" and w: "hd_lookup_walk k (entries d ! h) 0 = Some i"
    by (auto simp: hd_lookup_entry_def Let_def split: if_splits)
  from hd_lookup_walk_find [OF w] Some p h show ?thesis
    by (simp add: hd_lookup_def)
qed

lemma valid_insert:
  assumes "valid d" and "k \<notin> stored_keys d" and "node_count d < 2 ^ 32 - 1"
  shows "valid (d\<lparr>entries := (entries d)[hd_hash k := entries d ! hd_hash k @ [\<lparr>key = k, value = v\<rparr>]],
                   num_entries := num_entries d + 1\<rparr>)"
proof (rule valid_update_bucket [OF assms(1) hd_hash_less])
  from assms(1) show "\<forall>e \<in> set (entries d ! hd_hash k @ [\<lparr>key = k, value = v\<rparr>]). hd_hash (key e) = hd_hash k"
    using valid_bucketD(1) [OF assms(1) hd_hash_less, of k] by auto
  from assms(1,2) have "k \<notin> key ` set (entries d ! hd_hash k)"
    by (simp add: valid_stored_keys)
  then show "distinct (map key (entries d ! hd_hash k @ [\<lparr>key = k, value = v\<rparr>]))"
    using valid_bucketD(2) [OF assms(1) hd_hash_less, of k] by simp
  from assms(1,3) have "unat (num_entries d) < 2 ^ 32 - 1"
    by (simp add: valid_def)
  then have "unat (num_entries d + 1) = unat (num_entries d) + 1"
    by (simp add: unat_word_ariths)
  with assms(1) show "unat (num_entries d + 1) + length (entries d ! hd_hash k)
      = node_count d + length (entries d ! hd_hash k @ [\<lparr>key = k, value = v\<rparr>])"
    by (simp add: valid_def)
qed

lemma find_snoc:
  "find P (xs @ [y]) = (case find P xs of None \<Rightarrow> (if P y then Some y else None) | Some x \<Rightarrow> Some x)"
  by (induction xs) auto

lemma hd_lookup_entry_cong:
  assumes "entries d' = entries d" and "num_entries d' = num_entries d"
  shows "hd_lookup_entry (Some d') k = hd_lookup_entry (Some d) k"
  unfolding hd_lookup_entry_def Let_def option.sel assms by simp

lemma hd_lookup_cong:
  assumes "entries d' = entries d" and "num_entries d' = num_entries d"
  shows "hd_lookup (Some d') k = hd_lookup (Some d) k"
  unfolding hd_lookup_def hd_lookup_entry_cong [OF assms] option.sel assms ..

lemma hd_lookup_after_insert:
  assumes "valid d" and "k \<notin> stored_keys d" and "node_count d < 2 ^ 32 - 1"
    and "entries d' = (entries d)[hd_hash k := entries d ! hd_hash k @ [\<lparr>key = k, value = v\<rparr>]]"
    and "num_entries d' = num_entries d + 1"
  shows "hd_lookup (Some d') (Some k) = Some v"
proof -
  let ?c = "entries d ! hd_hash k @ [\<lparr>key = k, value = v\<rparr>]"
  let ?d = "d\<lparr>entries := (entries d)[hd_hash k := ?c], num_entries := num_entries d + 1\<rparr>"
  have v: "valid ?d"
    using assms(1-3) by (rule valid_insert)
  have len: "hd_hash k < length (entries d)"
    using assms(1) hd_hash_less by (rule valid_bucketD(3))
  from assms(1,2) have "find (\<lambda>e. key e = k) (entries d ! hd_hash k) = None"
    by (simp add: find_key_None valid_stored_keys)
  then have f: "find (\<lambda>e. key e = k) ?c = Some \<lparr>key = k, value = v\<rparr>"
    by (simp add: find_snoc)
  have "entries d' = entries ?d" "num_entries d' = num_entries ?d"
    by (simp_all add: assms(4,5))
  then have "hd_lookup (Some d') (Some k) = hd_lookup (Some ?d) (Some k)"
    by (rule hd_lookup_cong)
  also have "\<dots> = map_option value (find (\<lambda>e. key e = k) (entries ?d ! hd_hash k))"
    using v by (rule hd_lookup_valid)
  also have "entries ?d ! hd_hash k = ?c"
    using len by simp
  finally show ?thesis
    by (simp add: f)
qed

section \<open>The example dictionary\<close>

lemma hd_hash_a: "hd_hash ''a'' = 518"
  by (simp add: hd_hash_def HASHSIZE_def char_to_int_def)

lemma hd_lookup_entry_hd_create: "hd_lookup_entry (Some hd_create) k = None"
  by (simp add: hd_lookup_entry_def hd_create_def)

lemma insert_a1:
  "hd_entry_insert (True, True, True) (Some hd_create) (Some ''a'') (Some ''1'') = Inr (0, Some dict_a1)"
  by (simp add: hd_entry_insert_cases hd_lookup_entry_hd_create hd_hash_a)
     (simp add: hd_create_def dict_a1_def HASHSIZE_def sizeof_hd_entry_def)

lemma valid_dict_a1: "valid dict_a1"
proof -
  have "valid (hd_create\<lparr>entries := (entries hd_create)[hd_hash ''a'' :=
          entries hd_create ! hd_hash ''a'' @ [\<lparr>key = ''a'', value = ''1''\<rparr>]],
          num_entries := num_entries hd_create + 1\<rparr>)"
    by (rule valid_insert [OF valid_hd_create])
       (simp_all add: stored_keys_hd_create node_count_hd_create)
  then have "valid (dict_a1\<lparr>alloced_bytes := 0\<rparr>)"
    by (simp add: hd_hash_a) (simp add: hd_create_def dict_a1_def HASHSIZE_def)
  then show ?thesis
    by (simp only: valid_frame)
qed

lemma stored_keys_dict_a1: "stored_keys dict_a1 = {''a''}"
proof -
  have "stored_keys (hd_create\<lparr>entries := (entries hd_create)[518 := entries hd_create ! 518 @ [\<lparr>key = ''a'', value = ''1''\<rparr>]]\<rparr>)
      = insert ''a'' (stored_keys hd_create)"
    using stored_keys_append [of 518 hd_create "\<lparr>key = ''a'', value = ''1''\<rparr>"]
    by (simp add: hd_create_def HASHSIZE_def)
  moreover have "stored_keys dict_a1 = stored_keys (hd_create\<lparr>entries := (entries hd_create)[518 := entries hd_create ! 518 @ [\<lparr>key = ''a'', value = ''1''\<rparr>]]\<rparr>)"
    by (simp add: stored_keys_def hd_create_def dict_a1_def HASHSIZE_def)
  ultimately show ?thesis
    by (simp add: stored_keys_hd_create)
qed

lemma node_count_dict_a1: "node_count dict_a1 = 1"
proof -
  from valid_dict_a1 have "unat (num_entries dict_a1) = node_count dict_a1"
    by (simp only: valid_def)
  moreover have "num_entries dict_a1 = 1"
    by (simp add: dict_a1_def)
  ultimately show ?thesis
    by simp
qed

section \<open>Insertion\<close>

text \<open>
  Claim C1. Let the dictionary be valid and the key not stored in it. With all three
  allocations succeeding and key and value shorter than \<open>2 ^ 32 - 1\<close> bytes, the insert
  returns 0. Whenever the insert returns 0, the new dictionary differs from the old one in
  bucket \<open>hd_hash k\<close> only, whose chain is the old chain followed by one new node
  holding the key and the value (the head of the chain if the bucket was empty, its tail
  otherwise); \<^verbatim>\<open>num_entries\<close> has grown by one and \<^verbatim>\<open>alloced_bytes\<close> by
  \<open>length k + 1 + length v + 1 + sizeof_hd_entry\<close>, both in 32-bit arithmetic, and
  \<^verbatim>\<open>collisions\<close> by one if the bucket was occupied.
\<close>

theorem hd_entry_insert_appends:
  assumes "valid d" and "k \<notin> stored_keys d"
  shows "(length k + 1 < 2 ^ 32 \<and> length v + 1 < 2 ^ 32 \<longrightarrow>
            (\<exists>d'. hd_entry_insert (True, True, True) (Some d) (Some k) (Some v) = Inr (0, Some d')))
       \<and> (hd_entry_insert m (Some d) (Some k) (Some v) = Inr (0, dict') \<longrightarrow>
            (\<exists>d'. dict' = Some d' \<and> hd_hash k < length (entries d)
               \<and> entries d' = (entries d)[hd_hash k := entries d ! hd_hash k @ [\<lparr>key = k, value = v\<rparr>]]
               \<and> num_entries d' = num_entries d + 1
               \<and> alloced_bytes d' = alloced_bytes d
                    + of_nat (length k + 1 + length v + 1 + sizeof_hd_entry)
               \<and> collisions d' = (if entries d ! hd_hash k \<noteq> [] then collisions d + 1
                                   else collisions d)))"
proof (intro conjI impI)
  from assms have none: "hd_lookup_entry (Some d) (Some k) = None"
    by (simp add: hd_lookup_entry_None_iff)
  {
    assume "length k + 1 < 2 ^ 32 \<and> length v + 1 < 2 ^ 32"
    with none show "\<exists>d'. hd_entry_insert (True, True, True) (Some d) (Some k) (Some v) = Inr (0, Some d')"
      by (simp add: hd_entry_insert_cases del: One_nat_def add_Suc_right)
  }
  {
    assume ins: "hd_entry_insert m (Some d) (Some k) (Some v) = Inr (0, dict')"
    obtain n ko vo where m: "m = (n, ko, vo)"
      by (cases m)
    have len: "hd_hash k < length (entries d)"
      using assms(1) hd_hash_less by (rule valid_bucketD(3))
    from ins [unfolded m hd_entry_insert_cases] none len
    show "\<exists>d'. dict' = Some d' \<and> hd_hash k < length (entries d)
               \<and> entries d' = (entries d)[hd_hash k := entries d ! hd_hash k @ [\<lparr>key = k, value = v\<rparr>]]
               \<and> num_entries d' = num_entries d + 1
               \<and> alloced_bytes d' = alloced_bytes d
                    + of_nat (length k + 1 + length v + 1 + sizeof_hd_entry)
               \<and> collisions d' = (if entries d ! hd_hash k \<noteq> [] then collisions d + 1
                                   else collisions d)"
      by (auto simp: EINVAL_def ENOMEM_def split: if_splits simp del: One_nat_def add_Suc_right)
  }
qed

theorem hd_entry_insert_appends_witness:
  "\<exists>d'. hd_entry_insert (True, True, True) (Some hd_create) (Some ''a'') (Some ''1'') = Inr (0, Some d')
     \<and> entries d' = (entries hd_create)[518 := [\<lparr>key = ''a'', value = ''1''\<rparr>]]
     \<and> num_entries d' = 1 \<and> alloced_bytes d' = 28"
proof -
  have nk: "''a'' \<notin> stored_keys hd_create"
    by (simp add: stored_keys_hd_create)
  note t = hd_entry_insert_appends [OF valid_hd_create nk, of "''1''" "(True, True, True)"]
  from t [of None] obtain d' where
    ins: "hd_entry_insert (True, True, True) (Some hd_create) (Some ''a'') (Some ''1'') = Inr (0, Some d')"
    by auto
  from t [of "Some d'"] ins have
    "entries d' = (entries hd_create)[hd_hash ''a'' := entries hd_create ! hd_hash ''a'' @ [\<lparr>key = ''a'', value = ''1''\<rparr>]]"
    "num_entries d' = num_entries hd_create + 1"
    "alloced_bytes d' = alloced_bytes hd_create + of_nat (length ''a'' + 1 + length ''1'' + 1 + sizeof_hd_entry)"
    by auto
  then have "entries d' = (entries hd_create)[518 := [\<lparr>key = ''a'', value = ''1''\<rparr>]]"
    "num_entries d' = 1" "alloced_bytes d' = 28"
    by (simp_all add: hd_hash_a) (simp_all add: hd_create_def HASHSIZE_def sizeof_hd_entry_def)
  with ins show ?thesis
    by blast
qed

text \<open>
  Claim C2. In a valid dictionary, an insert of a key that is already stored returns
  \<open>- EINVAL\<close> for every value and every outcome of the allocator, and the dictionary
  after the call is the dictionary before it: the entry count and the value stored under
  the key are the same.
\<close>

theorem hd_entry_insert_duplicate:
  assumes "valid d" and "k \<in> stored_keys d"
  shows "hd_entry_insert m (Some d) (Some k) v = Inr (- EINVAL, Some d)"
proof -
  obtain n ko vo where m: "m = (n, ko, vo)"
    by (cases m)
  from assms have "hd_lookup_entry (Some d) (Some k) \<noteq> None"
    by (simp add: hd_lookup_entry_None_iff)
  then show ?thesis
    unfolding m by (simp add: hd_entry_insert_cases)
qed

theorem hd_entry_insert_duplicate_witness:
  "valid dict_a1 \<and> ''a'' \<in> stored_keys dict_a1
     \<and> hd_entry_insert (True, True, True) (Some dict_a1) (Some ''a'') (Some ''2'') = Inr (- 22, Some dict_a1)
     \<and> num_entries dict_a1 = 1 \<and> hd_lookup (Some dict_a1) (Some ''a'') = Some ''1''"
proof -
  have k: "''a'' \<in> stored_keys dict_a1"
    by (simp add: stored_keys_dict_a1)
  have "hd_lookup (Some dict_a1) (Some ''a'') = Some ''1''"
    by (simp add: hd_lookup_valid [OF valid_dict_a1] hd_hash_a) (simp add: dict_a1_def HASHSIZE_def)
  moreover have "num_entries dict_a1 = 1"
    by (simp add: dict_a1_def)
  ultimately show ?thesis
    using hd_entry_insert_duplicate [OF valid_dict_a1 k, of "(True, True, True)" "Some ''2''"] k valid_dict_a1
    by (simp add: EINVAL_def)
qed

lemma hd_entry_insert_not_EINVAL:
  assumes "hd_lookup_entry (Some d) (Some k) = None"
  shows "hd_entry_insert m (Some d) (Some k) v \<noteq> Inr (- EINVAL, dict')"
proof -
  obtain n ko vo where m: "m = (n, ko, vo)"
    by (cases m)
  from assms show ?thesis
    unfolding m by (simp add: hd_entry_insert_cases EINVAL_def ENOMEM_def)
qed

text \<open>
  Claim C10. The empty string is a key like any other. In a valid dictionary that does not
  store it, no insert of the empty key is rejected with \<open>- EINVAL\<close>, whatever the value
  and the allocator; with a value shorter than \<open>2 ^ 32 - 1\<close> bytes and the allocations
  succeeding the insert returns 0; and a lookup of the empty key in the resulting
  dictionary returns that value, provided the dictionary had fewer than \<open>2 ^ 32 - 1\<close>
  nodes, so that \<^verbatim>\<open>num_entries\<close>, an \<^verbatim>\<open>unsigned int\<close>, has not wrapped to 0.
\<close>

theorem hd_entry_insert_empty_key:
  assumes "valid d" and "[] \<notin> stored_keys d" and "length v + 1 < 2 ^ 32"
  shows "hd_entry_insert m (Some d) (Some []) w \<noteq> Inr (- EINVAL, dict')
       \<and> (\<exists>d'. hd_entry_insert (True, True, True) (Some d) (Some []) (Some v) = Inr (0, Some d')
              \<and> (node_count d < 2 ^ 32 - 1 \<longrightarrow> hd_lookup (Some d') (Some []) = Some v))"
proof
  from assms(1,2) have none: "hd_lookup_entry (Some d) (Some []) = None"
    by (simp add: hd_lookup_entry_None_iff)
  then show "hd_entry_insert m (Some d) (Some []) w \<noteq> Inr (- EINVAL, dict')"
    by (rule hd_entry_insert_not_EINVAL)
  let ?d = "d\<lparr>entries := (entries d)[hd_hash [] := entries d ! hd_hash [] @ [\<lparr>key = [], value = v\<rparr>]],
         num_entries := num_entries d + 1,
         collisions := (if entries d ! hd_hash [] \<noteq> [] then collisions d + 1 else collisions d),
         alloced_bytes := alloced_bytes d + of_nat (length ([]::string) + 1 + length v + 1 + sizeof_hd_entry)\<rparr>"
  from none assms(3)
  have "hd_entry_insert (True, True, True) (Some d) (Some []) (Some v) = Inr (0, Some ?d)"
    by (simp add: hd_entry_insert_cases del: One_nat_def add_Suc_right)
  moreover have "hd_lookup (Some ?d) (Some []) = Some v" if "node_count d < 2 ^ 32 - 1"
    using assms(1,2) that by (rule hd_lookup_after_insert) simp_all
  ultimately show "\<exists>d'. hd_entry_insert (True, True, True) (Some d) (Some []) (Some v) = Inr (0, Some d')
              \<and> (node_count d < 2 ^ 32 - 1 \<longrightarrow> hd_lookup (Some d') (Some []) = Some v)"
    by blast
qed

theorem hd_entry_insert_empty_key_witness:
  "hd_entry_insert (False, True, True) (Some dict_a1) (Some []) None \<noteq> Inr (- 22, Some dict_a1)
   \<and> (\<exists>d'. hd_entry_insert (True, True, True) (Some dict_a1) (Some []) (Some ''x'') = Inr (0, Some d')
     \<and> hd_lookup (Some d') (Some []) = Some ''x'')"
proof -
  have "[] \<notin> stored_keys dict_a1"
    by (simp add: stored_keys_dict_a1)
  moreover have "length ''x'' + 1 < (2::nat) ^ 32"
    by simp
  ultimately have "hd_entry_insert (False, True, True) (Some dict_a1) (Some []) None \<noteq> Inr (- EINVAL, Some dict_a1)
       \<and> (\<exists>d'. hd_entry_insert (True, True, True) (Some dict_a1) (Some []) (Some ''x'') = Inr (0, Some d')
           \<and> (node_count dict_a1 < 2 ^ 32 - 1 \<longrightarrow> hd_lookup (Some d') (Some []) = Some ''x''))"
    by (rule hd_entry_insert_empty_key [OF valid_dict_a1])
  then show ?thesis
    by (simp add: node_count_dict_a1 EINVAL_def)
qed

section \<open>Update: the cases of the code\<close>

lemma hd_entry_update_cases:
  "hd_entry_update ok (Some d) (Some k) v =
     (case hd_lookup_entry (Some d) (Some k) of
        None \<Rightarrow> Inr (- EINVAL, Some d)
      | Some (h, i) \<Rightarrow>
         if v = None \<or> \<not> ok then Inl Undefined_Behaviour
         else if \<not> length (the v) + 1 < 2 ^ 32 then Inl Undefined_Behaviour
         else Inr (0, Some (d
           \<lparr>entries := (entries d)[h := (entries d ! h)[i := (entries d ! h ! i)\<lparr>value := the v\<rparr>]],
            alloced_bytes := alloced_bytes d +
              (of_nat (length (the v)) - of_nat (length (value (entries d ! h ! i))))\<rparr>)))"
proof (cases v)
  case None
  then show ?thesis
    by (simp add: hd_entry_update_def hd_stralloc_None split: option.splits)
next
  case (Some s)
  then show ?thesis
    by (simp add: hd_entry_update_def hd_stralloc_Some strlen_def Let_def
          split: option.splits del: One_nat_def add_Suc_right)
qed

lemma hd_entry_update_0:
  assumes "hd_entry_update ok (Some d) (Some k) (Some v) = Inr (0, dict')"
  obtains i where "hd_lookup_entry (Some d) (Some k) = Some (hd_hash k, i)"
    and "dict' = Some (d
           \<lparr>entries := (entries d)[hd_hash k :=
               (entries d ! hd_hash k)[i := (entries d ! hd_hash k ! i)\<lparr>value := v\<rparr>]],
            alloced_bytes := alloced_bytes d +
              (of_nat (length v) - of_nat (length (value (entries d ! hd_hash k ! i))))\<rparr>)"
proof (cases "hd_lookup_entry (Some d) (Some k)")
  case None
  with assms show ?thesis
    by (simp add: hd_entry_update_cases EINVAL_def)
next
  case (Some p)
  obtain h i where p: "p = (h, i)"
    by (cases p)
  from hd_lookup_entry_Some [OF Some [unfolded p]] have h: "h = hd_hash k"
    by simp
  from assms Some p h that [of i] show ?thesis
    by (simp add: hd_entry_update_cases split: if_splits del: One_nat_def add_Suc_right)
qed

lemma hd_entry_update_succeeds:
  assumes "valid d" and "k \<in> stored_keys d" and "length v + 1 < 2 ^ 32"
  shows "\<exists>dict'. hd_entry_update True (Some d) (Some k) (Some v) = Inr (0, dict')"
proof -
  from assms(1,2) obtain p where "hd_lookup_entry (Some d) (Some k) = Some p"
    using hd_lookup_entry_None_iff [OF assms(1), of k] by auto
  with assms(3) show ?thesis
    by (cases p) (simp add: hd_entry_update_cases del: One_nat_def add_Suc_right)
qed

lemma hd_lookup_entry_dict_a1: "hd_lookup_entry (Some dict_a1) (Some ''a'') = Some (518, 0)"
  by (simp add: hd_lookup_entry_def hd_hash_a) (simp add: dict_a1_def HASHSIZE_def)

lemma entries_dict_a1: "entries dict_a1 ! 518 = [\<lparr>key = ''a'', value = ''1''\<rparr>]"
  by (simp add: dict_a1_def HASHSIZE_def)

lemma hd_lookup_walk_keys:
  "map key c' = map key c \<Longrightarrow> hd_lookup_walk k c' j = hd_lookup_walk k c j"
proof (induction c arbitrary: c' j)
  case Nil
  then show ?case by simp
next
  case (Cons e c)
  then obtain e' c'' where c': "c' = e' # c''" and e: "key e' = key e" and m: "map key c'' = map key c"
    by (cases c') auto
  from m have "c'' = [] \<longleftrightarrow> c = []"
    by (metis map_is_Nil_conv)
  with Cons.IH [OF m] c' e show ?case
    by simp
qed

lemma hd_entry_update_lookup:
  assumes "valid d" and "hd_entry_update ok (Some d) (Some k) (Some v) = Inr (0, Some d')"
  shows "hd_lookup (Some d') (Some k) = Some v"
proof -
  let ?h = "hd_hash k"
  let ?c = "entries d ! ?h"
  from assms(2) obtain i where l: "hd_lookup_entry (Some d) (Some k) = Some (?h, i)"
    and d': "Some d' = Some (d\<lparr>entries := (entries d)[?h := ?c[i := (?c ! i)\<lparr>value := v\<rparr>]],
            alloced_bytes := alloced_bytes d + (of_nat (length v) - of_nat (length (value (?c ! i))))\<rparr>)"
    by (rule hd_entry_update_0)
  from hd_lookup_entry_Some [OF l] have i: "i < length ?c"
    by simp
  from l have n: "num_entries d \<noteq> 0" and ne: "?c \<noteq> []" and w: "hd_lookup_walk k ?c 0 = Some i"
    by (auto simp: hd_lookup_entry_def Let_def split: if_splits)
  have len: "?h < length (entries d)"
    using assms(1) hd_hash_less by (rule valid_bucketD(3))
  let ?c' = "?c[i := (?c ! i)\<lparr>value := v\<rparr>]"
  from d' len have c': "entries d' ! ?h = ?c'" and n': "num_entries d' = num_entries d"
    by auto
  have "(map key ?c)[i := map key ?c ! i] = map key ?c"
    by (rule list_update_id)
  with i have "map key ?c' = map key ?c"
    by (simp add: map_update)
  then have "hd_lookup_walk k ?c' 0 = hd_lookup_walk k ?c 0"
    by (rule hd_lookup_walk_keys)
  with w have w': "hd_lookup_walk k ?c' 0 = Some i"
    by simp
  from ne have ne': "?c' \<noteq> []"
    by simp
  from n n' have n'': "num_entries d' \<noteq> 0"
    by simp
  have "hd_lookup_entry (Some d') (Some k) = Some (?h, i)"
    unfolding hd_lookup_entry_def Let_def option.sel c' using n'' ne' w' by simp
  moreover from i have "value (?c' ! i) = v"
    by simp
  ultimately show ?thesis
    by (simp add: hd_lookup_def c')
qed

lemma hd_entry_update_missing:
  assumes "valid d" and "k \<notin> stored_keys d"
  shows "hd_entry_update ok (Some d) (Some k) v = Inr (- EINVAL, Some d)"
proof -
  from assms have "hd_lookup_entry (Some d) (Some k) = None"
    by (simp add: hd_lookup_entry_None_iff)
  then show ?thesis
    by (simp add: hd_entry_update_cases)
qed

lemma hd_entry_update_not_ENOMEM: "hd_entry_update ok dict k v \<noteq> Inr (- ENOMEM, dict')"
  by (cases "hd_stralloc ok v")
     (auto simp: hd_entry_update_def EINVAL_def ENOMEM_def Let_def split: option.splits)

section \<open>Update\<close>

text \<open>
  Claim C9. In a valid dictionary that stores the key, an update with a value shorter than
  \<open>2 ^ 32 - 1\<close> bytes whose allocation succeeds returns 0. Whenever an update returns 0,
  the new dictionary differs from the old one in the \<open>value\<close> field of one node only, a
  node of bucket \<open>hd_hash k\<close> whose key is \<open>k\<close>: \<^verbatim>\<open>num_entries\<close> and
  \<^verbatim>\<open>collisions\<close> are unchanged, the bucket array has the same length, every chain holds
  the same keys in the same order, and every other node is the node it was.
\<close>

theorem hd_entry_update_changes_value_only:
  assumes "valid d" and "k \<in> stored_keys d"
  shows "(length v + 1 < 2 ^ 32 \<longrightarrow>
            (\<exists>dict'. hd_entry_update True (Some d) (Some k) (Some v) = Inr (0, dict')))
       \<and> (hd_entry_update ok (Some d) (Some k) (Some v) = Inr (0, dict') \<longrightarrow>
            (\<exists>d' i. dict' = Some d' \<and> i < length (entries d ! hd_hash k)
               \<and> key (entries d ! hd_hash k ! i) = k
               \<and> entries d' = (entries d)[hd_hash k :=
                     (entries d ! hd_hash k)[i := (entries d ! hd_hash k ! i)\<lparr>value := v\<rparr>]]
               \<and> num_entries d' = num_entries d \<and> collisions d' = collisions d
               \<and> length (entries d') = length (entries d)
               \<and> map (map key) (entries d') = map (map key) (entries d)
               \<and> (\<forall>b j. (b, j) \<noteq> (hd_hash k, i) \<longrightarrow> entries d' ! b ! j = entries d ! b ! j)))"
proof (intro conjI impI)
  assume "length v + 1 < 2 ^ 32"
  with assms show "\<exists>dict'. hd_entry_update True (Some d) (Some k) (Some v) = Inr (0, dict')"
    by (rule hd_entry_update_succeeds)
next
  let ?h = "hd_hash k"
  let ?c = "entries d ! ?h"
  assume "hd_entry_update ok (Some d) (Some k) (Some v) = Inr (0, dict')"
  then obtain i where l: "hd_lookup_entry (Some d) (Some k) = Some (?h, i)"
    and d': "dict' = Some (d\<lparr>entries := (entries d)[?h := ?c[i := (?c ! i)\<lparr>value := v\<rparr>]],
            alloced_bytes := alloced_bytes d + (of_nat (length v) - of_nat (length (value (?c ! i))))\<rparr>)"
    by (rule hd_entry_update_0)
  from hd_lookup_entry_Some [OF l] have i: "i < length ?c" and k: "key (?c ! i) = k"
    by simp_all
  have "(map key ?c)[i := map key ?c ! i] = map key ?c"
    by (rule list_update_id)
  with i have "map key (?c[i := (?c ! i)\<lparr>value := v\<rparr>]) = map key ?c"
    by (simp add: map_update)
  moreover have len: "?h < length (entries d)"
    using assms(1) hd_hash_less by (rule valid_bucketD(3))
  moreover have "(map (map key) (entries d))[?h := map (map key) (entries d) ! ?h] = map (map key) (entries d)"
    by (rule list_update_id)
  ultimately have keys: "map (map key) ((entries d)[?h := ?c[i := (?c ! i)\<lparr>value := v\<rparr>]]) = map (map key) (entries d)"
    by (simp add: map_update)
  have frame: "((entries d)[?h := ?c[i := (?c ! i)\<lparr>value := v\<rparr>]]) ! b ! j = entries d ! b ! j"
    if "(b, j) \<noteq> (?h, i)" for b j
  proof (cases "b = ?h")
    case True
    with that len show ?thesis by simp
  next
    case False
    then show ?thesis by simp
  qed
  from d' i k keys frame
  show "\<exists>d' i. dict' = Some d' \<and> i < length (entries d ! hd_hash k)
               \<and> key (entries d ! hd_hash k ! i) = k
               \<and> entries d' = (entries d)[hd_hash k :=
                     (entries d ! hd_hash k)[i := (entries d ! hd_hash k ! i)\<lparr>value := v\<rparr>]]
               \<and> num_entries d' = num_entries d \<and> collisions d' = collisions d
               \<and> length (entries d') = length (entries d)
               \<and> map (map key) (entries d') = map (map key) (entries d)
               \<and> (\<forall>b j. (b, j) \<noteq> (hd_hash k, i) \<longrightarrow> entries d' ! b ! j = entries d ! b ! j)"
    by (intro exI [of _ "the dict'"] exI [of _ i]) simp
qed

theorem hd_entry_update_changes_value_only_witness:
  "\<exists>d'. hd_entry_update True (Some dict_a1) (Some ''a'') (Some ''9'') = Inr (0, Some d')
     \<and> entries d' = (entries dict_a1)[518 := [\<lparr>key = ''a'', value = ''9''\<rparr>]]
     \<and> num_entries d' = num_entries dict_a1 \<and> collisions d' = collisions dict_a1"
proof -
  have k: "''a'' \<in> stored_keys dict_a1"
    by (simp add: stored_keys_dict_a1)
  note t = hd_entry_update_changes_value_only [OF valid_dict_a1 k, of "''9''" True]
  from t [of None] obtain dict' where
    u: "hd_entry_update True (Some dict_a1) (Some ''a'') (Some ''9'') = Inr (0, dict')"
    by auto
  from t [of dict'] u obtain d' i where d': "dict' = Some d'"
    and i: "i < length (entries dict_a1 ! hd_hash ''a'')"
    and e: "entries d' = (entries dict_a1)[hd_hash ''a'' :=
              (entries dict_a1 ! hd_hash ''a'')[i := (entries dict_a1 ! hd_hash ''a'' ! i)\<lparr>value := ''9''\<rparr>]]"
    and n: "num_entries d' = num_entries dict_a1" "collisions d' = collisions dict_a1"
    by auto
  from i have "i = 0"
    by (simp add: hd_hash_a entries_dict_a1)
  with e have "entries d' = (entries dict_a1)[518 := [\<lparr>key = ''a'', value = ''9''\<rparr>]]"
    by (simp add: hd_hash_a entries_dict_a1)
  with u d' n show ?thesis
    by blast
qed

text \<open>
  Claim C4, at the input where it fails. The dictionary stores "a" with the value "1";
  the update of "a" to "9" meets a failing \<^verbatim>\<open>malloc\<close> in \<^verbatim>\<open>hd_stralloc\<close>, which
  hands the \<^verbatim>\<open>NULL\<close> to \<^verbatim>\<open>memcpy\<close>: the call does not return \<open>- ENOMEM\<close>, it
  writes through \<^verbatim>\<open>NULL\<close>. The other parts of the claim hold, see
  \<open>hd_entry_update_lookup\<close> and \<open>hd_entry_update_missing\<close>; no call of
  \<^verbatim>\<open>hd_entry_update\<close> returns \<open>- ENOMEM\<close>, see \<open>hd_entry_update_not_ENOMEM\<close>.
\<close>

theorem hd_entry_update_alloc_failure:
  "hd_lookup (Some dict_a1) (Some ''a'') = Some ''1''
     \<and> hd_entry_update False (Some dict_a1) (Some ''a'') (Some ''9'') = Inl Undefined_Behaviour"
  by (simp add: hd_entry_update_cases hd_lookup_def hd_lookup_entry_dict_a1 entries_dict_a1)

section \<open>Removal\<close>

lemma splice_nth:
  assumes "i < length xs"
  shows "length (take i xs @ drop (Suc i) xs) \<le> i \<longleftrightarrow> length xs \<le> Suc i"
    and "Suc i < length xs \<Longrightarrow> (take i xs @ drop (Suc i) xs) ! i = xs ! Suc i"
  using assms by (auto simp: nth_append min_def)

lemma hd_entry_remove_cases:
  "hd_entry_remove (Some d) (Some k) =
     (if num_entries d = 0 \<or> entries d ! hd_hash k = [] then Inr (- EINVAL, Some d, None)
      else case hd_lookup_walk k (entries d ! hd_hash k) 0 of
             None \<Rightarrow> Inr (- EINVAL, Some d, None)
           | Some i \<Rightarrow>
              if length (entries d ! hd_hash k) \<le> Suc i then Inl Undefined_Behaviour
              else Inr (0,
                Some (d\<lparr>entries := (entries d)[hd_hash k :=
                         take i (entries d ! hd_hash k) @ drop (Suc i) (entries d ! hd_hash k)],
                       num_entries := num_entries d - 1,
                       alloced_bytes := alloced_bytes d -
                         of_nat (length (key (entries d ! hd_hash k ! Suc i))
                                 + length (value (entries d ! hd_hash k ! Suc i))
                                 + sizeof_hd_entry)\<rparr>),
                Some (hd_hash k, i)))"
proof (cases "hd_lookup_walk k (entries d ! hd_hash k) 0")
  case None
  then show ?thesis
    by (simp add: hd_entry_remove_def Let_def hd_remove_walk_eq)
next
  case (Some i)
  let ?c = "entries d ! hd_hash k"
  from hd_lookup_walk_Some [OF Some] have i: "i < length ?c"
    by simp
  have r: "(if i = 0 then drop 1 ?c else take i ?c @ drop (Suc i) ?c) = take i ?c @ drop (Suc i) ?c"
    by simp
  note sp = splice_nth [OF i]
  show ?thesis
  proof (cases "Suc i < length ?c")
    case True
    with sp(1) have "\<not> length (take i ?c @ drop (Suc i) ?c) \<le> i"
      by simp
    with sp(2) [OF True] True Some show ?thesis
      by (simp add: hd_entry_remove_def Let_def hd_remove_walk_eq r strlen_def del: One_nat_def)
  next
    case False
    with sp(1) have "length (take i ?c @ drop (Suc i) ?c) \<le> i"
      by simp
    with False Some show ?thesis
      by (simp add: hd_entry_remove_def Let_def hd_remove_walk_eq r del: One_nat_def)
  qed
qed

lemma hd_entry_remove_missing:
  assumes "valid d" and "k \<notin> stored_keys d"
  shows "hd_entry_remove (Some d) (Some k) = Inr (- EINVAL, Some d, None)"
proof -
  from assms have "k \<notin> key ` set (entries d ! hd_hash k)"
    by (simp add: valid_stored_keys)
  then have "hd_lookup_walk k (entries d ! hd_hash k) 0 = None"
    by (simp add: hd_lookup_walk_None)
  then show ?thesis
    by (simp add: hd_entry_remove_cases)
qed

lemma hd_entry_remove_stored:
  assumes "valid d" and "k \<in> stored_keys d"
  shows "\<exists>i. i < length (entries d ! hd_hash k) \<and> key (entries d ! hd_hash k ! i) = k
           \<and> hd_entry_remove (Some d) (Some k) =
               (if Suc i = length (entries d ! hd_hash k) then Inl Undefined_Behaviour
                else Inr (0,
                  Some (d\<lparr>entries := (entries d)[hd_hash k :=
                           take i (entries d ! hd_hash k) @ drop (Suc i) (entries d ! hd_hash k)],
                         num_entries := num_entries d - 1,
                         alloced_bytes := alloced_bytes d -
                           of_nat (length (key (entries d ! hd_hash k ! Suc i))
                                   + length (value (entries d ! hd_hash k ! Suc i))
                                   + sizeof_hd_entry)\<rparr>),
                  Some (hd_hash k, i)))"
proof -
  let ?c = "entries d ! hd_hash k"
  from assms have in_chain: "k \<in> key ` set ?c"
    by (simp add: valid_stored_keys)
  then have ne: "?c \<noteq> []"
    by auto
  have n: "num_entries d \<noteq> 0"
  proof
    assume "num_entries d = 0"
    with assms(1) have "?c = []"
      by (simp add: valid_num_entries_0 hd_hash_less)
    with ne show False
      by simp
  qed
  from in_chain obtain i where w: "hd_lookup_walk k ?c 0 = Some i"
    using hd_lookup_walk_None [of k ?c 0] by auto
  from hd_lookup_walk_Some [OF w] have i: "i < length ?c" and k: "key (?c ! i) = k"
    by simp_all
  from i have "length ?c \<le> Suc i \<longleftrightarrow> Suc i = length ?c"
    by auto
  with n ne w have "hd_entry_remove (Some d) (Some k) =
               (if Suc i = length ?c then Inl Undefined_Behaviour
                else Inr (0,
                  Some (d\<lparr>entries := (entries d)[hd_hash k := take i ?c @ drop (Suc i) ?c],
                         num_entries := num_entries d - 1,
                         alloced_bytes := alloced_bytes d -
                           of_nat (length (key (?c ! Suc i)) + length (value (?c ! Suc i))
                                   + sizeof_hd_entry)\<rparr>),
                  Some (hd_hash k, i)))"
    by (simp add: hd_entry_remove_cases)
  with i k show ?thesis
    by blast
qed

lemma hd_entry_remove_nothing_freed:
  assumes "valid d" and "hd_entry_remove (Some d) (Some k) = Inr (r, dict', None)"
  shows "r = - EINVAL \<and> dict' = Some d \<and> k \<notin> stored_keys d"
proof (cases "k \<in> stored_keys d")
  case True
  from hd_entry_remove_stored [OF assms(1) True] assms(2) show ?thesis
    by (auto split: if_splits)
next
  case False
  from hd_entry_remove_missing [OF assms(1) False] assms(2) show ?thesis
    using False by simp
qed

lemma hd_hash_ab: "hd_hash ''ab'' = 808"
  by (simp add: hd_hash_def HASHSIZE_def char_to_int_def)

lemma hd_hash_bA: "hd_hash ''bA'' = 808"
  by (simp add: hd_hash_def HASHSIZE_def char_to_int_def)

lemma insert_ab:
  "hd_entry_insert (True, True, True) (Some hd_create) (Some ''ab'') (Some ''1'')
     = Inr (0, Some (hd_create
         \<lparr>entries := (replicate HASHSIZE [])[808 := [\<lparr>key = ''ab'', value = ''1''\<rparr>]],
          num_entries := 1, alloced_bytes := 29\<rparr>))"
  by (simp add: hd_entry_insert_cases hd_lookup_entry_hd_create hd_hash_ab)
     (simp add: hd_create_def HASHSIZE_def sizeof_hd_entry_def)

lemma insert_bA:
  "hd_entry_insert (True, True, True)
     (Some (hd_create
         \<lparr>entries := (replicate HASHSIZE [])[808 := [\<lparr>key = ''ab'', value = ''1''\<rparr>]],
          num_entries := 1, alloced_bytes := 29\<rparr>)) (Some ''bA'') (Some ''22'')
     = Inr (0, Some dict_ab_bA)"
proof -
  let ?d = "hd_create
         \<lparr>entries := (replicate HASHSIZE [])[808 := [\<lparr>key = ''ab'', value = ''1''\<rparr>]],
          num_entries := 1, alloced_bytes := 29\<rparr>"
  have e: "entries ?d ! 808 = [\<lparr>key = ''ab'', value = ''1''\<rparr>]"
    by (simp add: HASHSIZE_def)
  have "hd_lookup_entry (Some ?d) (Some ''bA'') = None"
    unfolding hd_lookup_entry_def Let_def option.sel hd_hash_bA e by simp
  then show ?thesis
    by (simp add: hd_entry_insert_cases hd_hash_bA e)
       (simp add: hd_create_def dict_ab_bA_def HASHSIZE_def sizeof_hd_entry_def)
qed

lemma entries_dict_ab_bA:
  "entries dict_ab_bA ! 808 = [\<lparr>key = ''ab'', value = ''1''\<rparr>, \<lparr>key = ''bA'', value = ''22''\<rparr>]"
  by (simp add: dict_ab_bA_def HASHSIZE_def)

text \<open>
  Claim C3, at the inputs where it fails. After \<^verbatim>\<open>hd_create\<close> and the insert of "a"
  with the value "1" the dictionary holds one node, \<^verbatim>\<open>num_entries\<close> is 1 and
  \<^verbatim>\<open>alloced_bytes\<close> is 28. The removal of "a" finds the node at the head of its chain and
  stores its \<^verbatim>\<open>next\<close>, which is \<^verbatim>\<open>NULL\<close>, into the bucket slot that
  \<^verbatim>\<open>entry_ptr\<close> points to; it decrements \<^verbatim>\<open>num_entries\<close> and then evaluates
  \<^verbatim>\<open>strlen((*entry_ptr)->key)\<close>, a dereference of \<^verbatim>\<open>NULL\<close>: the call does not
  return. The same happens whenever the key is in the last node of its chain, as for "bA"
  in the dictionary that holds "ab" and "bA" in one chain (\<open>insert_ab\<close>, \<open>insert_bA\<close>).
  The removal of "ab" from that dictionary returns 0: the bucket slot points to the node
  of "bA", \<^verbatim>\<open>alloced_bytes\<close> is lowered by \<open>2 + 2 + 24 = 28\<close>, the sizes of the node of
  "bA", from 59 to 31, and the node of "bA" is freed with its strings while the bucket
  slot points to it; the node of "ab", for which the insert had added \<open>2 + 1 + 1 + 1 + 24 = 29\<close>,
  is unlinked and not freed. So it is for every stored key (\<open>hd_entry_remove_stored\<close>):
  no removal that finds its key splices the node out and frees it. A removal of a key that
  is not stored returns \<open>- EINVAL\<close> and changes nothing (\<open>hd_entry_remove_missing\<close>).
\<close>

theorem hd_entry_remove_reads_successor:
  "hd_entry_insert (True, True, True) (Some hd_create) (Some ''a'') (Some ''1'') = Inr (0, Some dict_a1)
     \<and> num_entries dict_a1 = 1 \<and> alloced_bytes dict_a1 = 28
     \<and> hd_entry_remove (Some dict_a1) (Some ''a'') = Inl Undefined_Behaviour
     \<and> hd_entry_remove (Some dict_ab_bA) (Some ''bA'') = Inl Undefined_Behaviour
     \<and> hd_entry_remove (Some dict_ab_bA) (Some ''ab'')
         = Inr (0,
             Some (dict_ab_bA
               \<lparr>entries := (replicate HASHSIZE [])[808 := [\<lparr>key = ''bA'', value = ''22''\<rparr>]],
                num_entries := 1, alloced_bytes := 31\<rparr>),
             Some (808, 0))"
proof -
  have 1: "num_entries dict_a1 = 1" "alloced_bytes dict_a1 = 28"
    by (simp_all add: dict_a1_def)
  have 2: "hd_entry_remove (Some dict_a1) (Some ''a'') = Inl Undefined_Behaviour"
    by (simp add: hd_entry_remove_cases hd_hash_a entries_dict_a1 1)
  have n: "num_entries dict_ab_bA = 2" "alloced_bytes dict_ab_bA = 59"
    by (simp_all add: dict_ab_bA_def)
  have 3: "hd_entry_remove (Some dict_ab_bA) (Some ''bA'') = Inl Undefined_Behaviour"
    by (simp add: hd_entry_remove_cases hd_hash_bA entries_dict_ab_bA n)
  have 4: "hd_entry_remove (Some dict_ab_bA) (Some ''ab'')
         = Inr (0,
             Some (dict_ab_bA
               \<lparr>entries := (replicate HASHSIZE [])[808 := [\<lparr>key = ''bA'', value = ''22''\<rparr>]],
                num_entries := 1, alloced_bytes := 31\<rparr>),
             Some (808, 0))"
    by (simp add: hd_entry_remove_cases hd_hash_ab entries_dict_ab_bA n)
       (simp add: dict_ab_bA_def sizeof_hd_entry_def)
  from insert_a1 1 2 3 4 show ?thesis
    by (intro conjI)
qed

section \<open>Insertion with a failing allocation\<close>

lemma hd_entry_insert_ENOMEM:
  assumes "hd_entry_insert (n, ko, vo) (Some d) (Some k) v = Inr (- ENOMEM, dict')"
  shows "\<not> n \<and> hd_lookup_entry (Some d) (Some k) = None
           \<and> (dict' = Some d \<or> dict' = Some (d\<lparr>collisions := collisions d + 1\<rparr>))"
proof (cases "hd_lookup_entry (Some d) (Some k)")
  case None
  with assms show ?thesis
    by (auto simp: hd_entry_insert_cases EINVAL_def ENOMEM_def split: if_splits)
next
  case (Some p)
  with assms show ?thesis
    by (simp add: hd_entry_insert_cases EINVAL_def ENOMEM_def)
qed

lemma hd_entry_insert_string_alloc_fails:
  assumes "hd_lookup_entry (Some d) (Some k) = None" and "\<not> ko \<or> \<not> vo"
  shows "hd_entry_insert (True, ko, vo) (Some d) (Some k) v = Inl Undefined_Behaviour"
  using assms by (auto simp: hd_entry_insert_cases)

text \<open>
  Claim C5, at the input where it fails. The dictionary is empty; the allocation of the
  node succeeds and the allocation of the key copy fails (or that one succeeds and the
  allocation of the value copy fails). \<^verbatim>\<open>hd_stralloc\<close> hands the \<^verbatim>\<open>NULL\<close> to
  \<^verbatim>\<open>memcpy\<close>: the insert does not return \<open>- ENOMEM\<close>, it writes through \<^verbatim>\<open>NULL\<close>,
  with the new node already linked into the chain. Only a failed allocation of the node
  returns \<open>- ENOMEM\<close>, and then the chains are as they were (\<open>hd_entry_insert_ENOMEM\<close>).
\<close>

theorem hd_entry_insert_alloc_failure:
  "hd_entry_insert (True, False, True) (Some hd_create) (Some ''a'') (Some ''1'') = Inl Undefined_Behaviour
     \<and> hd_entry_insert (True, True, False) (Some hd_create) (Some ''a'') (Some ''1'') = Inl Undefined_Behaviour"
  by (simp add: hd_entry_insert_cases hd_lookup_entry_hd_create)

section \<open>Teardown\<close>

lemma hd_free_entry_list_eq:
  "chain \<noteq> [] \<Longrightarrow> hd_free_entry_list chain d =
     Inr (d\<lparr>alloced_bytes := alloced_bytes d
                - of_nat (length chain * (sizeof_ptr + sizeof_ptr + sizeof_hd_entry)),
            num_entries := num_entries d - of_nat (length chain)\<rparr>)"
proof (induction chain)
  case Nil
  then show ?case by simp
next
  case (Cons entry nxt)
  show ?case
  proof (cases "nxt = []")
    case True
    then show ?thesis by simp
  next
    case False
    with Cons.IH show ?thesis
      by (simp add: algebra_simps)
  qed
qed

lemma hd_free_loop_eq:
  assumes "length (entries d) = HASHSIZE" and "i \<le> HASHSIZE"
  shows "hd_free_loop i d =
     Inr (d\<lparr>entries := take i (entries d) @ replicate (HASHSIZE - i) [],
            num_entries := num_entries d - of_nat (sum_list (map length (drop i (entries d)))),
            alloced_bytes := alloced_bytes d
              - of_nat (sum_list (map length (drop i (entries d)))
                        * (sizeof_ptr + sizeof_ptr + sizeof_hd_entry))\<rparr>)"
  using assms
proof (induction i d rule: hd_free_loop.induct)
  case (1 i d)
  show ?case
  proof (cases "i < HASHSIZE")
    case False
    with "1.prems" show ?thesis
      by (subst hd_free_loop.simps) simp
  next
    case True
    with "1.prems" have i: "i < length (entries d)"
      by simp
    let ?c = "entries d ! i"
    from i have dr: "drop i (entries d) = ?c # drop (Suc i) (entries d)"
      by (simp add: Cons_nth_drop_Suc)
    from True have rp: "replicate (HASHSIZE - i) ([]::hd_entry list) = [] # replicate (HASHSIZE - Suc i) []"
      by (metis Suc_diff_Suc replicate_Suc)
    show ?thesis
    proof (cases "?c = []")
      case True
      from i True have tk: "take (Suc i) (entries d) = take i (entries d) @ [[]]"
        by (simp add: take_Suc_conv_app_nth)
      from "1.IH"(2) [OF \<open>i < HASHSIZE\<close> _ "1.prems"(1)] True \<open>i < HASHSIZE\<close>
      have "hd_free_loop (Suc i) d = Inr (d\<lparr>entries := take (Suc i) (entries d) @ replicate (HASHSIZE - Suc i) [],
            num_entries := num_entries d - of_nat (sum_list (map length (drop (Suc i) (entries d)))),
            alloced_bytes := alloced_bytes d
              - of_nat (sum_list (map length (drop (Suc i) (entries d)))
                        * (sizeof_ptr + sizeof_ptr + sizeof_hd_entry))\<rparr>)"
        by simp
      with True \<open>i < HASHSIZE\<close> show ?thesis
        by (subst hd_free_loop.simps) (simp add: dr rp tk)
    next
      case False
      let ?d1 = "d\<lparr>alloced_bytes := alloced_bytes d
                - of_nat (length ?c * (sizeof_ptr + sizeof_ptr + sizeof_hd_entry)),
            num_entries := num_entries d - of_nat (length ?c)\<rparr>"
      let ?d2 = "?d1\<lparr>entries := (entries ?d1)[i := []]\<rparr>"
      from False have fl: "hd_free_entry_list ?c d = Inr ?d1"
        by (rule hd_free_entry_list_eq)
      from i have tk: "take (Suc i) ((entries d)[i := []]) = take i (entries d) @ [[]]"
        by (simp add: take_Suc_conv_app_nth)
      have dr2: "drop (Suc i) ((entries d)[i := []]) = drop (Suc i) (entries d)"
        by simp
      from "1.IH"(1) [OF \<open>i < HASHSIZE\<close> False fl] "1.prems"(1) \<open>i < HASHSIZE\<close>
      have "hd_free_loop (Suc i) ?d2 = Inr (?d2\<lparr>entries := take (Suc i) (entries ?d2) @ replicate (HASHSIZE - Suc i) [],
            num_entries := num_entries ?d2 - of_nat (sum_list (map length (drop (Suc i) (entries ?d2)))),
            alloced_bytes := alloced_bytes ?d2
              - of_nat (sum_list (map length (drop (Suc i) (entries ?d2)))
                        * (sizeof_ptr + sizeof_ptr + sizeof_hd_entry))\<rparr>)"
        by simp
      with False \<open>i < HASHSIZE\<close> fl show ?thesis
        by (subst hd_free_loop.simps) (simp add: dr rp tk dr2 algebra_simps)
    qed
  qed
qed

lemma hd_free_eq:
  assumes "length (entries d) = HASHSIZE"
  shows "hd_free (Some d) =
     Inr (Some (d\<lparr>entries := replicate HASHSIZE [],
            num_entries := num_entries d - of_nat (node_count d),
            alloced_bytes := alloced_bytes d
              - of_nat (node_count d * (sizeof_ptr + sizeof_ptr + sizeof_hd_entry))\<rparr>))"
  using hd_free_loop_eq [OF assms, of 0]
  by (simp add: hd_free_def node_count_def)

lemma hd_free_None: "hd_free None = Inr None"
  by (simp add: hd_free_def)

lemma hd_free_valid:
  assumes "valid d"
  shows "\<exists>d'. hd_free (Some d) = Inr (Some d') \<and> num_entries d' = 0 \<and> node_count d' = 0
           \<and> entries d' = replicate HASHSIZE []
           \<and> alloced_bytes d' = alloced_bytes d
                - of_nat (node_count d * (sizeof_ptr + sizeof_ptr + sizeof_hd_entry))"
proof -
  from assms have len: "length (entries d) = HASHSIZE" and "unat (num_entries d) = node_count d"
    by (simp_all add: valid_def)
  note this(2)
  have "of_nat (unat (num_entries d)) = num_entries d"
    by simp
  with \<open>unat (num_entries d) = node_count d\<close> have "num_entries d - of_nat (node_count d) = 0"
    by simp
  with hd_free_eq [OF len] show ?thesis
    by (simp add: node_count_def)
qed

text \<open>
  Claim C6, at the input where it fails. After \<^verbatim>\<open>hd_create\<close> and the insert of "a" with
  the value "1", \<^verbatim>\<open>alloced_bytes\<close> is 28. \<^verbatim>\<open>hd_free\<close> empties every bucket and brings
  \<^verbatim>\<open>num_entries\<close> back to 0, but lowers \<^verbatim>\<open>alloced_bytes\<close> by
  \<^verbatim>\<open>sizeof(entry->key) + sizeof(entry->value) + sizeof(struct hd_entry)\<close>, \<open>8 + 8 + 24 = 40\<close>,
  for the node: the counter ends at \<open>- 12\<close>, not at 0. For every valid dictionary
  \<^verbatim>\<open>hd_free\<close> returns, leaves no node and \<^verbatim>\<open>num_entries = 0\<close> (\<open>hd_free_valid\<close>).
\<close>

theorem hd_free_byte_counter:
  "hd_entry_insert (True, True, True) (Some hd_create) (Some ''a'') (Some ''1'') = Inr (0, Some dict_a1)
     \<and> hd_free (Some dict_a1) = Inr (Some (hd_create\<lparr>alloced_bytes := - 12\<rparr>))"
proof -
  have "length (entries dict_a1) = HASHSIZE"
    using valid_dict_a1 by (simp add: valid_def)
  from hd_free_eq [OF this]
  have "hd_free (Some dict_a1) = Inr (Some (hd_create\<lparr>alloced_bytes := - 12\<rparr>))"
    by (simp add: node_count_dict_a1)
       (simp add: dict_a1_def hd_create_def sizeof_ptr_def sizeof_hd_entry_def)
  with insert_a1 show ?thesis
    by simp
qed

section \<open>Counting the entries\<close>

lemma valid_node_count_card:
  assumes "valid d"
  shows "node_count d = card (stored_keys d)"
proof -
  let ?n = "length (entries d)"
  let ?A = "\<lambda>b. key ` set (entries d ! b)"
  have disj: "\<forall>i \<in> {..<?n}. \<forall>j \<in> {..<?n}. i \<noteq> j \<longrightarrow> ?A i \<inter> ?A j = {}"
  proof (intro ballI impI)
    fix i j assume ij: "i \<in> {..<?n}" "j \<in> {..<?n}" "i \<noteq> j"
    show "?A i \<inter> ?A j = {}"
    proof (rule ccontr)
      assume "?A i \<inter> ?A j \<noteq> {}"
      then obtain e e' where e: "e \<in> set (entries d ! i)" "e' \<in> set (entries d ! j)"
        and kk: "key e = key e'"
        by auto
      from assms have len: "length (entries d) = HASHSIZE"
        by (simp add: valid_def)
      from ij len have "i < HASHSIZE" "j < HASHSIZE"
        by simp_all
      with e have "hd_hash (key e) = i" "hd_hash (key e') = j"
        using valid_bucketD(1) [OF assms] by blast+
      with ij(3) kk show False
        by simp
    qed
  qed
  have "card (stored_keys d) = card (\<Union>b \<in> {..<?n}. ?A b)"
    by (simp only: stored_keys_nth)
  also have "\<dots> = (\<Sum>b \<in> {..<?n}. card (?A b))"
    using disj by (intro card_UN_disjoint) auto
  also have "\<dots> = (\<Sum>b \<in> {..<?n}. length (entries d ! b))"
  proof (rule sum.cong)
    fix b assume "b \<in> {..<?n}"
    with assms have "distinct (map key (entries d ! b))"
      by (simp add: valid_def)
    then have "card (set (map key (entries d ! b))) = length (map key (entries d ! b))"
      by (rule distinct_card)
    then show "card (?A b) = length (entries d ! b)"
      by simp
  qed simp
  also have "\<dots> = node_count d"
    by (simp add: node_count_def sum_list_sum_nth atLeast0LessThan)
  finally show ?thesis
    by simp
qed

lemma hd_hash_b: "hd_hash ''b'' = 519"
  by (simp add: hd_hash_def HASHSIZE_def char_to_int_def)

lemma insert_b2:
  "hd_entry_insert (True, True, True) (Some dict_a1) (Some ''b'') (Some ''2'') = Inr (0, Some dict_a1_b2)"
proof -
  have "hd_lookup_entry (Some dict_a1) (Some ''b'') = None"
    by (simp add: hd_lookup_entry_def hd_hash_b) (simp add: dict_a1_def HASHSIZE_def)
  then show ?thesis
    by (simp add: hd_entry_insert_cases hd_hash_b)
       (simp add: dict_a1_def dict_a1_b2_def HASHSIZE_def sizeof_hd_entry_def)
qed

lemma entries_dict_a1_b2: "entries dict_a1_b2 ! 518 = [\<lparr>key = ''a'', value = ''1''\<rparr>]"
  by (simp add: dict_a1_b2_def HASHSIZE_def)

lemma dict_a1_b2_eq:
  "dict_a1\<lparr>entries := (entries dict_a1)[hd_hash ''b'' :=
        entries dict_a1 ! hd_hash ''b'' @ [\<lparr>key = ''b'', value = ''2''\<rparr>]],
      num_entries := num_entries dict_a1 + 1\<rparr> = dict_a1_b2\<lparr>alloced_bytes := 28\<rparr>"
  by (simp add: hd_hash_b) (simp add: dict_a1_def dict_a1_b2_def HASHSIZE_def)

lemma valid_dict_a1_b2: "valid dict_a1_b2"
proof -
  have "valid (dict_a1\<lparr>entries := (entries dict_a1)[hd_hash ''b'' :=
          entries dict_a1 ! hd_hash ''b'' @ [\<lparr>key = ''b'', value = ''2''\<rparr>]],
          num_entries := num_entries dict_a1 + 1\<rparr>)"
    by (rule valid_insert [OF valid_dict_a1])
       (simp_all add: stored_keys_dict_a1 node_count_dict_a1)
  then have "valid (dict_a1_b2\<lparr>alloced_bytes := 28\<rparr>)"
    by (simp only: dict_a1_b2_eq)
  then show ?thesis
    by (simp only: valid_frame)
qed

lemma stored_keys_dict_a1_b2: "stored_keys dict_a1_b2 = {''a'', ''b''}"
proof -
  have "hd_hash ''b'' < length (entries dict_a1)"
    using valid_dict_a1 hd_hash_less by (rule valid_bucketD(3))
  from stored_keys_append [OF this, of "\<lparr>key = ''b'', value = ''2''\<rparr>"]
  have "stored_keys (dict_a1\<lparr>entries := (entries dict_a1)[hd_hash ''b'' :=
          entries dict_a1 ! hd_hash ''b'' @ [\<lparr>key = ''b'', value = ''2''\<rparr>]],
          num_entries := num_entries dict_a1 + 1\<rparr>) = insert ''b'' (stored_keys dict_a1)"
    by (simp add: stored_keys_def)
  then have "stored_keys (dict_a1_b2\<lparr>alloced_bytes := 28\<rparr>) = insert ''b'' (stored_keys dict_a1)"
    by (simp only: dict_a1_b2_eq)
  then show ?thesis
    by (auto simp: stored_keys_frame stored_keys_dict_a1)
qed

lemma node_count_dict_a1_b2: "node_count dict_a1_b2 = 2"
proof -
  from valid_dict_a1_b2 have "unat (num_entries dict_a1_b2) = node_count dict_a1_b2"
    by (simp only: valid_def)
  moreover have "num_entries dict_a1_b2 = 2"
    by (simp add: dict_a1_b2_def)
  ultimately show ?thesis
    by simp
qed

text \<open>
  Claim C7, at the input where it fails. The inserts of "a" and of "b" into the empty
  dictionary succeed, and after each of them \<^verbatim>\<open>num_entries\<close> is the number of nodes
  and the number of keys inserted: 2 after the second. The removal of "a" then finds the
  node of "a" alone in its chain, decrements \<^verbatim>\<open>num_entries\<close> and dereferences
  \<^verbatim>\<open>NULL\<close>: the sequence does not reach the state in which one key is left. An insert
  keeps a valid dictionary valid (\<open>valid_insert\<close>), and in a valid dictionary
  \<^verbatim>\<open>num_entries\<close> is the number of nodes and the number of stored keys
  (\<open>valid_node_count_card\<close>); a removal of a stored key dereferences \<^verbatim>\<open>NULL\<close> or
  frees a node that stays linked (\<open>hd_entry_remove_stored\<close>).
\<close>

theorem insert_remove_sequence_faults:
  "hd_entry_insert (True, True, True) (Some hd_create) (Some ''a'') (Some ''1'') = Inr (0, Some dict_a1)
     \<and> hd_entry_insert (True, True, True) (Some dict_a1) (Some ''b'') (Some ''2'') = Inr (0, Some dict_a1_b2)
     \<and> num_entries dict_a1_b2 = 2 \<and> node_count dict_a1_b2 = 2
     \<and> stored_keys dict_a1_b2 = {''a'', ''b''}
     \<and> hd_entry_remove (Some dict_a1_b2) (Some ''a'') = Inl Undefined_Behaviour"
proof -
  have 1: "num_entries dict_a1_b2 = 2"
    by (simp add: dict_a1_b2_def)
  have 2: "hd_entry_remove (Some dict_a1_b2) (Some ''a'') = Inl Undefined_Behaviour"
    by (simp add: hd_entry_remove_cases hd_hash_a entries_dict_a1_b2 1)
  from insert_a1 insert_b2 1 node_count_dict_a1_b2 stored_keys_dict_a1_b2 2 show ?thesis
    by (intro conjI)
qed

end
